theory Spec2Isabelle
  imports Complex_Main "HOL-Library.Word"
begin

unbundle bit_operations_syntax

section \<open>Machine types\<close>

text \<open>
  The program is x86-64 code (it executes \<^verbatim>\<open>rdtscp\<close> and \<^verbatim>\<open>clflush\<close>), so
  \<^verbatim>\<open>size_t\<close>, \<^verbatim>\<open>uintptr_t\<close>, \<^verbatim>\<open>uint64_t\<close> and pointers are 64-bit words and
  \<^verbatim>\<open>uint32_t\<close> is a 32-bit word. A C \<^verbatim>\<open>int\<close> is kept as a HOL integer in the range
  of a 32-bit two's complement number; where the program could leave that range
  (signed overflow) or shift by a count outside \<open>0..63\<close> the C standard leaves the
  behaviour undefined, and the model returns \<open>None\<close>. A pointer is its address:
  pointer arithmetic is addition modulo \<open>2 ^ 64\<close> and pointers compare as unsigned
  numbers.
\<close>

type_synonym u8 = "8 word"
type_synonym u32 = "32 word"
type_synonym u64 = "64 word"

type_synonym memory = "u64 \<Rightarrow> u8"

definition INT_MAX :: int where
  "INT_MAX = 2147483647"

text \<open>\<^verbatim>\<open>x << s\<close> for an unsigned 64-bit \<open>x\<close> and an \<^verbatim>\<open>int\<close> count \<open>s\<close>.\<close>

definition shl :: "u64 \<Rightarrow> int \<Rightarrow> u64 option" where
  "shl x s = (if 0 \<le> s \<and> s < 64 then Some (push_bit (nat s) x) else None)"

text \<open>\<^verbatim>\<open>count += 1\<close> on an \<^verbatim>\<open>int\<close>.\<close>

definition int_incr :: "int \<Rightarrow> int option" where
  "int_incr x = (if x < INT_MAX then Some (x + 1) else None)"

section \<open>dlog2\<close>

text \<open>
  \<^verbatim>\<open>uint32_t dlog2(size_t n) { uint32_t k = 0; while (n != 0) { n >>= 1; k += 1; } return k - 1; }\<close>
\<close>

function dlog2_loop :: "u64 \<Rightarrow> u32 \<Rightarrow> u32" where
  "dlog2_loop n k = (if n \<noteq> 0 then dlog2_loop (drop_bit 1 n) (k + 1) else k)"
  by pat_completeness auto
termination
proof (relation "measure (\<lambda>(n, k). unat n)")
  show "wf (measure (\<lambda>(n, k). unat n))" by simp
next
  fix n :: u64 and k :: u32
  assume "n \<noteq> 0"
  then have "unat n \<noteq> 0" by (simp add: unat_eq_0)
  then have "unat n div 2 < unat n" by simp
  then show "((drop_bit 1 n, k + 1), (n, k)) \<in> measure (\<lambda>(n, k). unat n)"
    by (simp add: drop_bit_eq_div unat_div)
qed

declare dlog2_loop.simps [simp del]

definition dlog2 :: "u64 \<Rightarrow> u32" where
  "dlog2 n = dlog2_loop n 0 - 1"

section \<open>The cache descriptor\<close>

text \<open>
  \<^verbatim>\<open>struct cache\<close>. The field \<^verbatim>\<open>size\<close> is called \<open>size_c\<close> here; \<open>buffer\<close> is the
  address of the buffer, 0 being the null pointer.
\<close>

record cache =
  size_c :: u64
  line_size :: u64
  set_size :: u64
  assoc :: u64
  nsets :: u64
  offset_mask :: u64
  index_mask :: u64
  tag_mask :: u64
  index_shift :: int
  tag_shift :: int
  hit_latency :: u64
  miss_latency :: u64
  hit_threshold :: u64
  buffer_size :: u64
  buffer :: u64

section \<open>The host\<close>

text \<open>
  What \<^verbatim>\<open>cache_init\<close> gets from outside the program: the three \<^verbatim>\<open>sysconf\<close> answers
  (as stored into the \<^verbatim>\<open>size_t\<close> fields), the block the allocator picks, the result of
  the \<open>n\<close>-th call of \<^verbatim>\<open>timed_read\<close> (a cycle count read from the hardware), and the
  contents of memory before the call.
\<close>

record host =
  l1d_size :: u64
  l1d_linesize :: u64
  l1d_assoc :: u64
  alloc_block :: u64
  timed_reads :: "nat \<Rightarrow> u64"
  memory :: memory

text \<open>
  The C library's \<^verbatim>\<open>aligned_alloc(alignment, size)\<close>, by its contract in the C
  standard: it returns a null pointer, or a block whose address is a multiple of
  \<open>alignment\<close>; an alignment that is not a power of two is not valid and the call
  fails. \<open>blk\<close> is the block the allocator would hand out.
\<close>

definition is_pow2 :: "u64 \<Rightarrow> bool" where
  "is_pow2 x = (x \<in> set (map (\<lambda>n. 2 ^ n) [0..<64]))"

definition aligned_alloc :: "u64 \<Rightarrow> u64 \<Rightarrow> u64 \<Rightarrow> u64" where
  "aligned_alloc blk alignment sz = (if is_pow2 alignment \<and> blk mod alignment = 0 then blk else 0)"

text \<open>The C library's \<^verbatim>\<open>memset(p, v, n)\<close>: the \<open>n\<close> bytes from \<open>p\<close> on become \<open>v\<close>.\<close>

definition memset :: "memory \<Rightarrow> u64 \<Rightarrow> u8 \<Rightarrow> u64 \<Rightarrow> memory" where
  "memset m p v n = (\<lambda>a. if a - p < n then v else m a)"

section \<open>cache_init\<close>

definition NTRIALS :: int where
  "NTRIALS = 1024"

text \<open>
  The two calibration loops
  \<^verbatim>\<open>for (int trial = 0; trial < NTRIALS; trial++) { cache_fill/cache_flush(&buffer[0]); mean += timed_read(&buffer[0]); }\<close>.
  What \<^verbatim>\<open>cache_fill\<close> and \<^verbatim>\<open>cache_flush\<close> do to the hardware cache shows only in the
  cycle counts that \<^verbatim>\<open>timed_read\<close> returns; \<open>base\<close> is the number of timed reads made
  before the loop.
\<close>

function trials :: "(nat \<Rightarrow> u64) \<Rightarrow> nat \<Rightarrow> int \<Rightarrow> u64 \<Rightarrow> u64" where
  "trials rd base trial mean =
     (if trial < NTRIALS then trials rd base (trial + 1) (mean + rd (base + nat trial)) else mean)"
  by pat_completeness auto
termination
  by (relation "measure (\<lambda>(rd, base, trial, mean). nat (NTRIALS - trial))") auto

declare trials.simps [simp del]

record init_result =
  ret :: int
  cache_out :: cache
  memory_out :: memory

text \<open>
  \<open>None\<close>: the division by a zero \<^verbatim>\<open>set_size\<close> (a trap on x86-64) or a shift by a
  count outside \<open>0..63\<close>.
\<close>

definition cache_init :: "host \<Rightarrow> init_result option" where
  "cache_init h =
     (let sz = l1d_size h;
          lsz = l1d_linesize h;
          ways = l1d_assoc h;
          ssz = lsz * ways
      in if ssz = 0 then None
         else
           let ns = sz div ssz;
               ishift = sint (dlog2 lsz);
               tshift = sint (dlog2 ns + word_of_int ishift);
               omask = lsz - 1
           in case shl (ns - 1) ishift of
                None \<Rightarrow> None
              | Some imask \<Rightarrow>
                  (case shl (NOT 0) tshift of
                     None \<Rightarrow> None
                   | Some tmask \<Rightarrow>
                       (let bsz = sz * ways;
                            buf = aligned_alloc (alloc_block h) sz bsz;
                            c = \<lparr>size_c = sz, line_size = lsz, set_size = ssz,
                                 assoc = ways, nsets = ns, offset_mask = omask,
                                 index_mask = imask, tag_mask = tmask,
                                 index_shift = ishift, tag_shift = tshift,
                                 hit_latency = 0, miss_latency = 0, hit_threshold = 0,
                                 buffer_size = bsz, buffer = buf\<rparr>
                        in if buf = 0
                           then Some \<lparr>ret = - 1, cache_out = c, memory_out = memory h\<rparr>
                           else
                             let hit = trials (timed_reads h) 0 0 0 div word_of_int NTRIALS;
                                 miss = trials (timed_reads h) (nat NTRIALS) 0 0 div word_of_int NTRIALS;
                                 thr = (hit + miss) div 2
                             in Some \<lparr>ret = 0,
                                       cache_out = c\<lparr>hit_latency := hit, miss_latency := miss,
                                                      hit_threshold := thr\<rparr>,
                                       memory_out = memset (memory h) buf 0 sz\<rparr>)))"

section \<open>The set operations\<close>

text \<open>
  What a set operation does besides returning: the calls of \<^verbatim>\<open>cache_flush\<close>,
  \<^verbatim>\<open>cache_fill\<close> and \<^verbatim>\<open>timed_read\<close> with their addresses, and the text it prints,
  in order.
\<close>

datatype event = Cache_flush u64 | Cache_fill u64 | Timed_read u64 | Printf string

function flush_ways :: "cache \<Rightarrow> u64 \<Rightarrow> u64 \<Rightarrow> event list \<Rightarrow> event list option" where
  "flush_ways c k ptr tr =
     (if k < assoc c
      then case shl (nsets c) (index_shift c) of
             None \<Rightarrow> None
           | Some stride \<Rightarrow> flush_ways c (k + 1) (ptr + stride) (tr @ [Cache_flush ptr])
      else Some tr)"
  by pat_completeness auto
termination
proof (relation "measure (\<lambda>(c, k, ptr, tr). unat (assoc c) - unat k)")
  show "wf (measure (\<lambda>(c, k, ptr, tr). unat (assoc c) - unat k))" by simp
next
  fix c :: cache and k ptr :: u64 and tr :: "event list" and stride :: u64
  assume "k < assoc c"
  then have lt: "unat k < unat (assoc c)" by (simp add: word_less_nat_alt)
  moreover have "unat (assoc c) < 2 ^ 64" using unsigned_less [of "assoc c"] by simp
  ultimately have "unat k + unat (1 :: u64) < 2 ^ LENGTH(64)" by simp
  then have "unat (k + 1) = unat k + unat (1 :: u64)" by (simp only: unat_add_lem)
  with lt have "unat (assoc c) - unat (k + 1) < unat (assoc c) - unat k" by simp
  then show "((c, k + 1, ptr + stride, tr @ [Cache_flush ptr]), (c, k, ptr, tr))
      \<in> measure (\<lambda>(c, k, ptr, tr). unat (assoc c) - unat k)"
    by simp
qed

declare flush_ways.simps [simp del]

definition cache_flush_set :: "cache \<Rightarrow> u64 \<Rightarrow> (int \<times> event list) option" where
  "cache_flush_set c setno =
     (if setno \<ge> nsets c then Some (- 1, [])
      else case shl setno (index_shift c) of
             None \<Rightarrow> None
           | Some off \<Rightarrow>
               (case flush_ways c 0 (buffer c + off) [] of
                  None \<Rightarrow> None
                | Some tr \<Rightarrow> Some (0, tr)))"

function fill_ways :: "cache \<Rightarrow> u64 \<Rightarrow> u64 \<Rightarrow> event list \<Rightarrow> event list option" where
  "fill_ways c k ptr tr =
     (if k < assoc c
      then case shl (nsets c) (index_shift c) of
             None \<Rightarrow> None
           | Some stride \<Rightarrow> fill_ways c (k + 1) (ptr + stride) (tr @ [Cache_fill ptr])
      else Some tr)"
  by pat_completeness auto
termination
proof (relation "measure (\<lambda>(c, k, ptr, tr). unat (assoc c) - unat k)")
  show "wf (measure (\<lambda>(c, k, ptr, tr). unat (assoc c) - unat k))" by simp
next
  fix c :: cache and k ptr :: u64 and tr :: "event list" and stride :: u64
  assume "k < assoc c"
  then have lt: "unat k < unat (assoc c)" by (simp add: word_less_nat_alt)
  moreover have "unat (assoc c) < 2 ^ 64" using unsigned_less [of "assoc c"] by simp
  ultimately have "unat k + unat (1 :: u64) < 2 ^ LENGTH(64)" by simp
  then have "unat (k + 1) = unat k + unat (1 :: u64)" by (simp only: unat_add_lem)
  with lt have "unat (assoc c) - unat (k + 1) < unat (assoc c) - unat k" by simp
  then show "((c, k + 1, ptr + stride, tr @ [Cache_fill ptr]), (c, k, ptr, tr))
      \<in> measure (\<lambda>(c, k, ptr, tr). unat (assoc c) - unat k)"
    by simp
qed

declare fill_ways.simps [simp del]

definition cache_fill_set :: "cache \<Rightarrow> u64 \<Rightarrow> (int \<times> event list) option" where
  "cache_fill_set c setno =
     (if setno \<ge> nsets c then Some (- 1, [])
      else case shl setno (index_shift c) of
             None \<Rightarrow> None
           | Some off \<Rightarrow>
               (case fill_ways c 0 (buffer c + off) [] of
                  None \<Rightarrow> None
                | Some tr \<Rightarrow> Some (0, tr)))"

definition sadface :: string where
  "sadface = ''sadface.'' @ [CHR 0x0A]"

text \<open>
  The loop of \<^verbatim>\<open>cache_count_hits\<close>; \<open>rd k\<close> is the cycle count that the timed read of
  way \<open>k\<close> returns.
\<close>

function count_ways ::
  "cache \<Rightarrow> (nat \<Rightarrow> u64) \<Rightarrow> u64 \<Rightarrow> u64 \<Rightarrow> int \<Rightarrow> event list \<Rightarrow> (int \<times> event list) option" where
  "count_ways c rd k ptr count tr =
     (if k < assoc c
      then
        let dur = rd (unat k);
            tr1 = tr @ [Timed_read ptr]
        in case (if hit_threshold c \<ge> dur then int_incr count else Some count) of
             None \<Rightarrow> None
           | Some count' \<Rightarrow>
               (case shl (nsets c) (index_shift c) of
                  None \<Rightarrow> None
                | Some stride \<Rightarrow>
                    (let ptr' = ptr + stride;
                         tr2 = (if \<not> (ptr' < buffer c + buffer_size c)
                                then tr1 @ [Printf sadface] else tr1)
                     in count_ways c rd (k + 1) ptr' count' tr2))
      else Some (count, tr))"
  by pat_completeness auto
termination
proof (relation "measure (\<lambda>(c, rd, k, ptr, count, tr). unat (assoc c) - unat k)")
  show "wf (measure (\<lambda>(c, rd, k, ptr, count, tr). unat (assoc c) - unat k))" by simp
next
  fix c :: cache and rd :: "nat \<Rightarrow> u64" and k ptr :: u64 and count :: int
    and tr tr2 :: "event list" and count' :: int and ptr' :: u64
  assume "k < assoc c"
  then have lt: "unat k < unat (assoc c)" by (simp add: word_less_nat_alt)
  moreover have "unat (assoc c) < 2 ^ 64" using unsigned_less [of "assoc c"] by simp
  ultimately have "unat k + unat (1 :: u64) < 2 ^ LENGTH(64)" by simp
  then have "unat (k + 1) = unat k + unat (1 :: u64)" by (simp only: unat_add_lem)
  with lt have "unat (assoc c) - unat (k + 1) < unat (assoc c) - unat k" by simp
  then show "((c, rd, k + 1, ptr', count', tr2), (c, rd, k, ptr, count, tr))
      \<in> measure (\<lambda>(c, rd, k, ptr, count, tr). unat (assoc c) - unat k)"
    by simp
qed

declare count_ways.simps [simp del]

definition cache_count_hits :: "cache \<Rightarrow> (nat \<Rightarrow> u64) \<Rightarrow> u64 \<Rightarrow> (int \<times> event list) option" where
  "cache_count_hits c rd setno =
     (if setno \<ge> nsets c then Some (- 1, [])
      else case shl setno (index_shift c) of
             None \<Rightarrow> None
           | Some off \<Rightarrow> count_ways c rd 0 (buffer c + off) 0 [])"

section \<open>pin_current_thread\<close>

text \<open>
  A \<^verbatim>\<open>cpu_set_t\<close> holds \<^verbatim>\<open>CPU_SETSIZE\<close> = 1024 bits; \<^verbatim>\<open>CPU_SET\<close> ignores a CPU number
  outside it. The host has the logical CPUs \<open>0..<ncpus\<close>. By its manual page,
  \<^verbatim>\<open>pthread_setaffinity_np\<close> fails with \<^verbatim>\<open>EINVAL\<close> when the set holds none of the
  host's CPUs, and otherwise makes the set (cut down to the host's CPUs) the affinity
  of the thread. The result is the return value and the thread's affinity.
\<close>

definition CPU_SETSIZE :: int where
  "CPU_SETSIZE = 1024"

definition EINVAL :: int where
  "EINVAL = 22"

definition CPU_ZERO :: "nat set" where
  "CPU_ZERO = {}"

definition CPU_SET :: "int \<Rightarrow> nat set \<Rightarrow> nat set" where
  "CPU_SET cpu cpuset = (if 0 \<le> cpu \<and> cpu < CPU_SETSIZE then insert (nat cpu) cpuset else cpuset)"

definition pthread_setaffinity_np :: "nat \<Rightarrow> nat set \<Rightarrow> int \<Rightarrow> nat set \<Rightarrow> int \<times> nat set" where
  "pthread_setaffinity_np ncpus current cpusetsize cpuset =
     (if cpuset \<inter> {0..<ncpus} = {} then (EINVAL, current) else (0, cpuset \<inter> {0..<ncpus}))"

definition pin_current_thread :: "nat \<Rightarrow> nat set \<Rightarrow> int \<Rightarrow> int \<times> nat set" where
  "pin_current_thread ncpus current cpuno =
     (let cpuset = CPU_SET cpuno CPU_ZERO;
          (r, affinity) = pthread_setaffinity_np ncpus current CPU_SETSIZE cpuset
      in (0, affinity))"

section \<open>The addresses of a set\<close>

text \<open>
  The pointer that the three loops hold at way \<open>k\<close> of set \<open>setno\<close>, in closed form:
  \<^verbatim>\<open>buffer + (setno << index_shift) + k * (nsets << index_shift)\<close>. The lemmas
  \<open>cache_flush_set_run\<close>, \<open>cache_fill_set_run\<close> and \<open>cache_count_hits_run\<close> below show
  that the loops visit exactly these addresses.
\<close>

definition probe_addr :: "cache \<Rightarrow> u64 \<Rightarrow> nat \<Rightarrow> u64" where
  "probe_addr c setno k =
     buffer c + push_bit (nat (index_shift c)) setno
       + of_nat k * push_bit (nat (index_shift c)) (nsets c)"

text \<open>What one round of the loop of \<^verbatim>\<open>cache_count_hits\<close> does at way \<open>k\<close>.\<close>

definition probe_events :: "cache \<Rightarrow> u64 \<Rightarrow> nat \<Rightarrow> event list" where
  "probe_events c setno k =
     Timed_read (probe_addr c setno k) #
       (if probe_addr c setno (Suc k) < buffer c + buffer_size c then [] else [Printf sadface])"

section \<open>Concrete hosts\<close>

text \<open>
  The geometry of the specification's scenario (32 KiB, 64-byte lines, 8 ways), a
  direct-mapped 4 KiB cache, and a host whose timed reads come out slower after a fill
  than after a flush. The allocator hands out the block at \<open>0x100000\<close>, whose bytes all
  hold \<open>0xAA\<close>.
\<close>

definition stale_memory :: memory where
  "stale_memory a = 0xAA"

definition calib_reads :: "nat \<Rightarrow> u64" where
  "calib_reads n = (if n < 1024 then 40 else 200)"

definition inverted_reads :: "nat \<Rightarrow> u64" where
  "inverted_reads n = (if n < 1024 then 200 else 40)"

definition fast_reads :: "nat \<Rightarrow> u64" where
  "fast_reads k = 40"

definition mixed_reads :: "nat \<Rightarrow> u64" where
  "mixed_reads k = (if k = 2 then 300 else if k = 5 then 121 else if k = 6 then 120 else 40)"

definition l1d_host :: host where
  "l1d_host = \<lparr>l1d_size = 32768, l1d_linesize = 64, l1d_assoc = 8, alloc_block = 0x100000,
      timed_reads = calib_reads, memory = stale_memory\<rparr>"

definition l1d_cache :: cache where
  "l1d_cache = \<lparr>size_c = 32768, line_size = 64, set_size = 512, assoc = 8, nsets = 64,
      offset_mask = 0x3F, index_mask = 0xFC0, tag_mask = 0xFFFFFFFFFFFFF000,
      index_shift = 6, tag_shift = 12, hit_latency = 40, miss_latency = 200,
      hit_threshold = 120, buffer_size = 262144, buffer = 0x100000\<rparr>"

definition noisy_host :: host where
  "noisy_host = \<lparr>l1d_size = 32768, l1d_linesize = 64, l1d_assoc = 8, alloc_block = 0x100000,
      timed_reads = inverted_reads, memory = stale_memory\<rparr>"

definition noisy_cache :: cache where
  "noisy_cache = \<lparr>size_c = 32768, line_size = 64, set_size = 512, assoc = 8, nsets = 64,
      offset_mask = 0x3F, index_mask = 0xFC0, tag_mask = 0xFFFFFFFFFFFFF000,
      index_shift = 6, tag_shift = 12, hit_latency = 200, miss_latency = 40,
      hit_threshold = 120, buffer_size = 262144, buffer = 0x100000\<rparr>"

definition dm_host :: host where
  "dm_host = \<lparr>l1d_size = 4096, l1d_linesize = 64, l1d_assoc = 1, alloc_block = 0x100000,
      timed_reads = calib_reads, memory = stale_memory\<rparr>"

definition dm_cache :: cache where
  "dm_cache = \<lparr>size_c = 4096, line_size = 64, set_size = 64, assoc = 1, nsets = 64,
      offset_mask = 0x3F, index_mask = 0xFC0, tag_mask = 0xFFFFFFFFFFFFF000,
      index_shift = 6, tag_shift = 12, hit_latency = 40, miss_latency = 200,
      hit_threshold = 120, buffer_size = 4096, buffer = 0x100000\<rparr>"

section \<open>dlog2 is the floor of the binary logarithm\<close>

lemma dlog2_loop_bracket:
  "2 ^ j \<le> unat n \<Longrightarrow> unat n < 2 ^ Suc j \<Longrightarrow> dlog2_loop n k = k + of_nat (Suc j)"
proof (induction j arbitrary: n k)
  case 0
  then have "unat n = 1" by simp
  then have n1: "n = 1" by (simp add: word_unat_eq_iff)
  show ?case unfolding n1
    by (simp add: dlog2_loop.simps [of 1] dlog2_loop.simps [of 0] drop_bit_eq_div)
next
  case (Suc j)
  let ?m = "drop_bit 1 n :: u64"
  have um: "unat ?m = unat n div 2"
    by (simp add: drop_bit_eq_div unat_div)
  from Suc.prems have lo: "2 ^ j \<le> unat ?m" and hi: "unat ?m < 2 ^ Suc j"
    unfolding um by simp_all
  from Suc.prems have "unat n \<noteq> 0" by auto
  then have nz: "n \<noteq> 0" by (simp add: unat_eq_0)
  have "dlog2_loop n k = dlog2_loop ?m (k + 1)"
    using nz by (subst dlog2_loop.simps) simp
  also have "\<dots> = (k + 1) + of_nat (Suc j)"
    using Suc.IH [OF lo hi] .
  finally show ?case by simp
qed

lemma dlog2_bracket:
  assumes "2 ^ j \<le> unat n" and "unat n < 2 ^ Suc j"
  shows "dlog2 n = of_nat j"
  using dlog2_loop_bracket [OF assms, of 0] by (simp add: dlog2_def)

lemma nat_bracket_exists:
  fixes m :: nat
  assumes "0 < m" and "m < 2 ^ 64"
  shows "\<exists>j < 64. 2 ^ j \<le> m \<and> m < 2 ^ Suc j"
proof -
  define j where "j = nat \<lfloor>log 2 (real m)\<rfloor>"
  have "1 \<le> real m" using assms(1) by simp
  then have "0 \<le> log 2 (real m)" by (simp add: zero_le_log_cancel_iff)
  then have "\<lfloor>log (real 2) (real m)\<rfloor> = int j" by (simp add: j_def)
  then have b: "2 ^ j \<le> m \<and> m < 2 ^ Suc j"
    using floor_log_nat_eq_powr_iff [of 2 m j] assms(1) by simp
  with assms(2) have "(2::nat) ^ j < 2 ^ 64" by linarith
  then have "j < 64" by (rule power_less_imp_less_exp [rotated]) simp
  with b show ?thesis by blast
qed

lemma nat_bracket_floor_log:
  fixes m :: nat
  assumes "2 ^ j \<le> m" and "m < 2 ^ Suc j"
  shows "\<lfloor>log 2 (real m)\<rfloor> = int j"
  using floor_log_nat_eq_if [of 2 j m] assms by simp

lemma unat_two_power:
  assumes "k < 64"
  shows "unat (2 ^ k :: u64) = 2 ^ k"
proof -
  have "(2::nat) ^ k < 2 ^ 64" using assms by (rule power_strict_increasing) simp
  moreover have "(2 ^ k :: u64) = of_nat (2 ^ k)" by simp
  ultimately show ?thesis by (simp only: unat_of_nat) simp
qed

lemma unat_of_nat_small: "j < 64 \<Longrightarrow> unat (of_nat j :: u32) = j"
  by (simp add: unat_of_nat)

lemma dlog2_nonzero:
  fixes n :: u64
  assumes "n \<noteq> 0"
  shows "\<exists>j < 64. dlog2 n = of_nat j \<and> 2 ^ j \<le> unat n \<and> unat n < 2 ^ Suc j"
proof -
  have "0 < unat n" using assms by (simp add: unat_gt_0)
  moreover have "unat n < 2 ^ 64" using unsigned_less [of n] by simp
  ultimately obtain j where j: "j < 64" "2 ^ j \<le> unat n" "unat n < 2 ^ Suc j"
    using nat_bracket_exists [of "unat n"] by blast
  have "dlog2 n = of_nat j" using dlog2_bracket [OF j(2,3)] .
  with j show ?thesis by blast
qed

lemma dlog2_two_power: "k < 64 \<Longrightarrow> dlog2 (2 ^ k) = of_nat k"
  using dlog2_bracket [of k "2 ^ k"] unat_two_power [of k] by simp

text \<open>
  Claim C6. \<open>dlog2 1 = 0\<close>, \<open>dlog2 2 = 1\<close>, \<open>dlog2 (2 ^ k) = k\<close> for every \<open>k\<close> with
  \<open>2 ^ k\<close> representable in the 64-bit input type, and for every \<open>n \<ge> 1\<close> the result is
  the floor of the base-2 logarithm of \<open>n\<close>: \<open>2 ^ dlog2 n \<le> n < 2 ^ (dlog2 n + 1)\<close>.
\<close>

theorem dlog2_floor_log:
  "dlog2 1 = 0 \<and> dlog2 2 = 1 \<and>
   (k < 64 \<longrightarrow> dlog2 (2 ^ k) = of_nat k) \<and>
   (n \<noteq> 0 \<longrightarrow> 2 ^ unat (dlog2 n) \<le> unat n \<and> unat n < 2 ^ (unat (dlog2 n) + 1) \<and>
      \<lfloor>log 2 (real (unat n))\<rfloor> = int (unat (dlog2 n)))"
proof -
  have one: "dlog2 1 = 0" using dlog2_bracket [of 0 1] by simp
  have two: "dlog2 2 = 1" using dlog2_bracket [of 1 2] by simp
  have pw: "dlog2 (2 ^ k) = of_nat k" if "k < 64"
    using that by (rule dlog2_two_power)
  have fl: "2 ^ unat (dlog2 n) \<le> unat n \<and> unat n < 2 ^ (unat (dlog2 n) + 1) \<and>
      \<lfloor>log 2 (real (unat n))\<rfloor> = int (unat (dlog2 n))" if "n \<noteq> 0"
  proof -
    from dlog2_nonzero [OF that] obtain j
      where j: "j < 64" "2 ^ j \<le> unat n" "unat n < 2 ^ Suc j" and d: "dlog2 n = of_nat j"
      by blast
    have u: "unat (dlog2 n) = j" unfolding d using j(1) by (rule unat_of_nat_small)
    show ?thesis
      unfolding u using j(2,3) nat_bracket_floor_log [OF j(2,3)] by simp
  qed
  show ?thesis using one two pw fl by blast
qed

theorem dlog2_floor_log_witness:
  "dlog2 1 = 0 \<and> dlog2 2 = 1 \<and>
   (12 :: nat) < 64 \<and> dlog2 (2 ^ 12) = 12 \<and>
   (1000 :: u64) \<noteq> 0 \<and> unat (dlog2 1000) = 9 \<and> (2 :: nat) ^ 9 \<le> 1000 \<and> (1000 :: nat) < 2 ^ 10"
proof -
  have d: "dlog2 1000 = 9" using dlog2_bracket [of 9 1000] by simp
  show ?thesis using dlog2_floor_log [of 12 1000] d by simp
qed

text \<open>
  Claim C7. On the input 0 the loop body never runs, so \<open>dlog2 0\<close> is \<open>0 - 1\<close> in
  32-bit unsigned arithmetic: \<open>2 ^ 32 - 1\<close>.
\<close>

theorem dlog2_zero_wraps: "dlog2 0 = 0xFFFFFFFF \<and> unat (dlog2 0) = 2 ^ 32 - 1"
proof -
  have "dlog2 0 = 0xFFFFFFFF"
    by (simp add: dlog2_def dlog2_loop.simps [of 0])
  moreover have "unat (0xFFFFFFFF :: u32) = 2 ^ 32 - 1"
    by simp
  ultimately show ?thesis by simp
qed

section \<open>Facts about cache_init\<close>

lemma cache_init_geometry:
  assumes "cache_init h = Some r"
  shows "l1d_linesize h * l1d_assoc h \<noteq> 0"
    and "size_c (cache_out r) = l1d_size h"
    and "line_size (cache_out r) = l1d_linesize h"
    and "set_size (cache_out r) = l1d_linesize h * l1d_assoc h"
    and "assoc (cache_out r) = l1d_assoc h"
    and "nsets (cache_out r) = l1d_size h div (l1d_linesize h * l1d_assoc h)"
    and "offset_mask (cache_out r) = l1d_linesize h - 1"
    and "index_shift (cache_out r) = sint (dlog2 (l1d_linesize h))"
    and "tag_shift (cache_out r) =
           sint (dlog2 (nsets (cache_out r)) + word_of_int (index_shift (cache_out r)))"
    and "shl (nsets (cache_out r) - 1) (index_shift (cache_out r)) = Some (index_mask (cache_out r))"
    and "shl (NOT 0) (tag_shift (cache_out r)) = Some (tag_mask (cache_out r))"
    and "buffer_size (cache_out r) = l1d_size h * l1d_assoc h"
    and "buffer (cache_out r) = aligned_alloc (alloc_block h) (l1d_size h) (l1d_size h * l1d_assoc h)"
  using assms
  by (auto simp: cache_init_def Let_def split: if_splits option.splits)

lemma cache_init_calibration:
  assumes "cache_init h = Some r" and "ret r = 0"
  shows "buffer (cache_out r) \<noteq> 0"
    and "hit_latency (cache_out r) = trials (timed_reads h) 0 0 0 div 1024"
    and "miss_latency (cache_out r) = trials (timed_reads h) 1024 0 0 div 1024"
    and "hit_threshold (cache_out r) = (hit_latency (cache_out r) + miss_latency (cache_out r)) div 2"
    and "memory_out r = memset (memory h) (buffer (cache_out r)) 0 (l1d_size h)"
  using assms
  by (auto simp: cache_init_def Let_def NTRIALS_def split: if_splits option.splits)

lemma cache_init_ret:
  assumes "cache_init h = Some r"
  shows "ret r = 0 \<or> ret r = - 1" and "ret r = - 1 \<longleftrightarrow> buffer (cache_out r) = 0"
  using assms
  by (auto simp: cache_init_def Let_def split: if_splits option.splits)


lemma trials_const:
  "(\<forall>i < 1024. rd (base + i) = d) \<Longrightarrow> 0 \<le> t \<Longrightarrow> t \<le> 1024 \<Longrightarrow>
     trials rd base t m = m + word_of_int (1024 - t) * d"
proof (induction rd base t m rule: trials.induct)
  case (1 rd base trial mean)
  show ?case
  proof (cases "trial < 1024")
    case True
    have rd: "rd (base + nat trial) = d" using 1(2,3) True by simp
    have "trials rd base trial mean = trials rd base (trial + 1) (mean + rd (base + nat trial))"
      using True by (subst trials.simps) (simp add: NTRIALS_def)
    also have "\<dots> = (mean + d) + word_of_int (1024 - (trial + 1)) * d"
      using "1.IH" 1(2,3) True rd by (simp add: NTRIALS_def)
    also have "\<dots> = mean + word_of_int (1024 - trial) * d"
      by (simp add: algebra_simps)
    finally show ?thesis .
  next
    case False
    with 1(4) have "trial = 1024" by simp
    then show ?thesis by (subst trials.simps) (simp add: NTRIALS_def)
  qed
qed

lemma latency_bound:
  fixes x :: u64
  shows "unat (x div 1024) < 2 ^ 54"
proof -
  have "unat x < 2 ^ 64" using unsigned_less [of x] by simp
  then have "unat x div 1024 < 2 ^ 54" by simp
  then show ?thesis by (simp add: unat_div)
qed

lemma threshold_midpoint:
  fixes a b :: u64
  assumes "unat a < 2 ^ 54" and "unat b < 2 ^ 54"
  shows "unat ((a + b) div 2) = (unat a + unat b) div 2"
proof -
  have "unat a + unat b < 2 ^ LENGTH(64)" using assms by simp
  then have "unat (a + b) = unat a + unat b" by (simp only: unat_add_lem)
  then show ?thesis by (simp add: unat_div)
qed

lemma is_pow2_32768: "is_pow2 32768"
  unfolding is_pow2_def by (simp add: upt_rec)

lemma tag_mask_12: "push_bit 12 (NOT 0 :: u64) = 0xFFFFFFFFFFFFF000"
  by (simp add: push_bit_eq_mult)

lemma dlog2_64: "dlog2 64 = 6"
  using dlog2_two_power [of 6] by simp

lemma sint_of_nat_small: "j < 128 \<Longrightarrow> sint (of_nat j :: u32) = int j"
proof -
  assume j: "j < 128"
  have "unat (of_nat j :: u32) = j" using j by (simp add: unat_of_nat)
  then have "uint (of_nat j :: u32) = int j" by (simp only: uint_nat)
  then have "sint (of_nat j :: u32) = signed_take_bit 31 (int j)"
    by (simp only: sint_uint) simp
  also have "\<dots> = int j"
    using j by (simp add: signed_take_bit_int_eq_self)
  finally show ?thesis .
qed

lemma masks_bits:
  fixes a b :: nat
  assumes "a + b < 64"
  shows "(2 ^ a - 1 :: u64) OR push_bit a (2 ^ b - 1) OR push_bit (a + b) (NOT 0) = - 1"
    and "(2 ^ a - 1 :: u64) AND push_bit a (2 ^ b - 1) = 0"
    and "(2 ^ a - 1 :: u64) AND push_bit (a + b) (NOT 0) = 0"
    and "push_bit a (2 ^ b - 1 :: u64) AND push_bit (a + b) (NOT 0) = 0"
proof -
  have m: "(2 ^ a - 1 :: u64) = mask a" "(2 ^ b - 1 :: u64) = mask b"
    by (simp_all add: mask_eq_exp_minus_1)
  show "(2 ^ a - 1 :: u64) OR push_bit a (2 ^ b - 1) OR push_bit (a + b) (NOT 0) = - 1"
    unfolding m by (rule bit_word_eqI) (auto simp: bit_simps)
  show "(2 ^ a - 1 :: u64) AND push_bit a (2 ^ b - 1) = 0"
    unfolding m by (rule bit_word_eqI) (auto simp: bit_simps)
  show "(2 ^ a - 1 :: u64) AND push_bit (a + b) (NOT 0) = 0"
    unfolding m by (rule bit_word_eqI) (auto simp: bit_simps)
  show "push_bit a (2 ^ b - 1 :: u64) AND push_bit (a + b) (NOT 0) = 0"
    unfolding m by (rule bit_word_eqI) (auto simp: bit_simps)
qed

lemma geometry_fits:
  fixes sz ways :: u64
  assumes a: "a < 64" and nz: "2 ^ a * ways \<noteq> (0 :: u64)"
    and ns: "sz div (2 ^ a * ways) = 2 ^ b" and b: "b < 64"
  shows "2 ^ (a + b) \<le> unat sz"
proof -
  let ?ssz = "2 ^ a * ways :: u64"
  have ua: "unat (2 ^ a :: u64) = 2 ^ a" using a by (rule unat_two_power)
  have "unat ?ssz = (2 ^ a * unat ways) mod 2 ^ 64"
    by (simp add: unat_word_ariths ua)
  moreover have "(2::nat) ^ a dvd 2 ^ 64" by (rule le_imp_power_dvd) (use a in simp)
  ultimately have "2 ^ a dvd unat ?ssz"
    by (simp add: dvd_mod)
  moreover have "unat ?ssz \<noteq> 0" using nz by (simp add: unat_eq_0)
  ultimately have le: "2 ^ a \<le> unat ?ssz" by (simp add: dvd_imp_le)
  have "unat (sz div ?ssz) = unat sz div unat ?ssz" by (rule unat_div)
  then have "unat sz div unat ?ssz = 2 ^ b" using ns unat_two_power [OF b] by simp
  moreover have "unat sz div unat ?ssz * unat ?ssz \<le> unat sz"
    by (rule div_times_less_eq_dividend)
  ultimately have big: "2 ^ b * unat ?ssz \<le> unat sz"
    by simp
  have "(2::nat) ^ (a + b) = 2 ^ b * 2 ^ a" by (simp add: power_add)
  also have "\<dots> \<le> 2 ^ b * unat ?ssz" using le by (rule mult_le_mono2)
  also note big
  finally show ?thesis .
qed

lemma geometry_shift_bound:
  fixes sz ways :: u64
  assumes a: "a < 64" and nz: "2 ^ a * ways \<noteq> (0 :: u64)"
    and ns: "sz div (2 ^ a * ways) = 2 ^ b" and b: "b < 64"
  shows "a + b < 64"
proof -
  have "2 ^ (a + b) \<le> unat sz" using assms by (rule geometry_fits)
  moreover have "unat sz < 2 ^ 64" using unsigned_less [of sz] by simp
  ultimately have "(2::nat) ^ (a + b) < 2 ^ 64" by linarith
  then show ?thesis by (rule power_less_imp_less_exp [rotated]) simp
qed

lemma shl_valid: "n < 64 \<Longrightarrow> shl x (int n) = Some (push_bit n x)"
  by (simp add: shl_def)

lemma cache_init_None_iff:
  "cache_init h = None \<longleftrightarrow>
     l1d_linesize h * l1d_assoc h = 0 \<or>
     shl (l1d_size h div (l1d_linesize h * l1d_assoc h) - 1) (sint (dlog2 (l1d_linesize h))) = None \<or>
     shl (NOT 0) (sint (dlog2 (l1d_size h div (l1d_linesize h * l1d_assoc h)) +
                        word_of_int (sint (dlog2 (l1d_linesize h))))) = None"
  by (auto simp: cache_init_def Let_def split: option.splits if_splits)

lemma cache_init_pow2:
  assumes ls: "l1d_linesize h = 2 ^ a" and a: "a < 64"
    and nz: "l1d_linesize h * l1d_assoc h \<noteq> 0"
    and ns: "l1d_size h div (l1d_linesize h * l1d_assoc h) = 2 ^ b" and b: "b < 64"
  shows "\<exists>r. cache_init h = Some r \<and>
           line_size (cache_out r) = 2 ^ a \<and> nsets (cache_out r) = 2 ^ b \<and>
           index_shift (cache_out r) = int a \<and> tag_shift (cache_out r) = int (a + b) \<and>
           offset_mask (cache_out r) = 2 ^ a - 1 \<and>
           index_mask (cache_out r) = push_bit a (2 ^ b - 1) \<and>
           tag_mask (cache_out r) = push_bit (a + b) (NOT 0)"
proof -
  have ab: "a + b < 64"
    using geometry_shift_bound [of a "l1d_assoc h" "l1d_size h" b] a nz ns b
    unfolding ls by simp
  have ish: "sint (dlog2 (l1d_linesize h)) = int a"
    unfolding ls using a by (simp add: dlog2_two_power sint_of_nat_small)
  have "dlog2 (2 ^ b) + word_of_int (int a) = (of_nat (a + b) :: u32)"
    using b by (simp add: dlog2_two_power)
  then have tsh: "sint (dlog2 (2 ^ b) + word_of_int (int a)) = int (a + b)"
    using ab by (simp only: sint_of_nat_small)
  have s1: "shl (2 ^ b - 1) (int a) = Some (push_bit a (2 ^ b - 1))"
    using a by (rule shl_valid)
  have s2: "shl (NOT 0) (int (a + b)) = Some (push_bit (a + b) (NOT 0))"
    using ab by (rule shl_valid)
  have "cache_init h \<noteq> None"
    unfolding cache_init_None_iff ns ish tsh s1 s2 using nz by simp
  then obtain r where r: "cache_init h = Some r" by blast
  note g = cache_init_geometry [OF r]
  have n: "nsets (cache_out r) = 2 ^ b" using g(6) ns by simp
  have i: "index_shift (cache_out r) = int a" using g(8) ish by simp
  have t: "tag_shift (cache_out r) = int (a + b)" using g(9) tsh unfolding n i by simp
  have im: "index_mask (cache_out r) = push_bit a (2 ^ b - 1)"
    using g(10) s1 unfolding n i by simp
  have tm: "tag_mask (cache_out r) = push_bit (a + b) (NOT 0)"
    using g(11) s2 unfolding t by simp
  show ?thesis using r g(3,7) n i t im tm ls by simp
qed

text \<open>
  Claim C5. For every geometry in which \<open>line_size\<close> and \<open>nsets\<close> are powers of two
  (and the set size is not zero, so that the division computing \<open>nsets\<close> is carried
  out), \<open>cache_init\<close> computes its masks (no shift is out of range), the three masks
  together cover all 64 address bits, and no two of them share a bit.
\<close>

theorem masks_partition:
  assumes "l1d_linesize h = 2 ^ a" and "a < 64"
    and "l1d_linesize h * l1d_assoc h \<noteq> 0"
    and "l1d_size h div (l1d_linesize h * l1d_assoc h) = 2 ^ b" and "b < 64"
  shows "\<exists>r. cache_init h = Some r \<and>
           line_size (cache_out r) = 2 ^ a \<and> nsets (cache_out r) = 2 ^ b \<and>
           offset_mask (cache_out r) OR index_mask (cache_out r) OR tag_mask (cache_out r) = - 1 \<and>
           offset_mask (cache_out r) AND index_mask (cache_out r) = 0 \<and>
           offset_mask (cache_out r) AND tag_mask (cache_out r) = 0 \<and>
           index_mask (cache_out r) AND tag_mask (cache_out r) = 0"
proof -
  have ab: "a + b < 64"
    using geometry_shift_bound [of a "l1d_assoc h" "l1d_size h" b] assms by simp
  from cache_init_pow2 [OF assms] obtain r where r: "cache_init h = Some r"
    "line_size (cache_out r) = 2 ^ a" "nsets (cache_out r) = 2 ^ b"
    "offset_mask (cache_out r) = 2 ^ a - 1"
    "index_mask (cache_out r) = push_bit a (2 ^ b - 1)"
    "tag_mask (cache_out r) = push_bit (a + b) (NOT 0)"
    by blast
  show ?thesis
    using r(1,2,3) masks_bits [OF ab] unfolding r(4,5,6) [symmetric] by blast
qed

section \<open>The concrete hosts, evaluated\<close>

lemma is_pow2_4096: "is_pow2 4096"
  unfolding is_pow2_def by (simp add: upt_rec)

lemma trials_calib_reads:
  "trials calib_reads 0 0 0 = 1024 * 40" "trials calib_reads 1024 0 0 = 1024 * 200"
  using trials_const [of calib_reads 0 40 0 0] trials_const [of calib_reads 1024 200 0 0]
  by (simp_all add: calib_reads_def)

lemma trials_inverted_reads:
  "trials inverted_reads 0 0 0 = 1024 * 200" "trials inverted_reads 1024 0 0 = 1024 * 40"
  using trials_const [of inverted_reads 0 200 0 0] trials_const [of inverted_reads 1024 40 0 0]
  by (simp_all add: inverted_reads_def)

lemma l1d_host_init:
  "cache_init l1d_host =
     Some \<lparr>ret = 0, cache_out = l1d_cache, memory_out = memset stale_memory 0x100000 0 32768\<rparr>"
  unfolding cache_init_def Let_def
  by (simp add: l1d_host_def l1d_cache_def dlog2_64 shl_def aligned_alloc_def is_pow2_32768
      NTRIALS_def tag_mask_12 trials_calib_reads del: push_bit_minus_one_eq_not_mask)

lemma noisy_host_init:
  "cache_init noisy_host =
     Some \<lparr>ret = 0, cache_out = noisy_cache, memory_out = memset stale_memory 0x100000 0 32768\<rparr>"
  unfolding cache_init_def Let_def
  by (simp add: noisy_host_def noisy_cache_def dlog2_64 shl_def aligned_alloc_def is_pow2_32768
      NTRIALS_def tag_mask_12 trials_inverted_reads del: push_bit_minus_one_eq_not_mask)

lemma dm_host_init:
  "cache_init dm_host =
     Some \<lparr>ret = 0, cache_out = dm_cache, memory_out = memset stale_memory 0x100000 0 4096\<rparr>"
  unfolding cache_init_def Let_def
  by (simp add: dm_host_def dm_cache_def dlog2_64 shl_def aligned_alloc_def is_pow2_4096
      NTRIALS_def tag_mask_12 trials_calib_reads del: push_bit_minus_one_eq_not_mask)

lemma upt_8: "[0..<8] = [0, 1, 2, 3, 4, 5, 6, 7]"
  by (simp add: upt_rec)

lemma l1d_probe_addr: "probe_addr l1d_cache 5 k = 0x100140 + of_nat k * 0x1000"
  by (simp add: probe_addr_def l1d_cache_def)

lemma l1d_probe_events: "k < 8 \<Longrightarrow> probe_events l1d_cache 5 k = [Timed_read (0x100140 + of_nat k * 0x1000)]"
proof -
  assume "k < 8"
  then have "k \<in> set [0..<8]" by simp
  then have "k \<in> {0, 1, 2, 3, 4, 5, 6, 7}" unfolding upt_8 by simp
  then have "probe_addr l1d_cache 5 (Suc k) < buffer l1d_cache + buffer_size l1d_cache"
    by (auto simp: probe_addr_def l1d_cache_def)
  then show ?thesis by (simp add: probe_events_def l1d_probe_addr)
qed

theorem masks_partition_witness:
  "l1d_linesize l1d_host = 2 ^ 6 \<and> (6 :: nat) < 64 \<and>
   l1d_linesize l1d_host * l1d_assoc l1d_host \<noteq> 0 \<and>
   l1d_size l1d_host div (l1d_linesize l1d_host * l1d_assoc l1d_host) = 2 ^ 6 \<and>
   (\<exists>r. cache_init l1d_host = Some r \<and>
      offset_mask (cache_out r) = 0x3F \<and> index_mask (cache_out r) = 0xFC0 \<and>
      tag_mask (cache_out r) = 0xFFFFFFFFFFFFF000 \<and>
      offset_mask (cache_out r) OR index_mask (cache_out r) OR tag_mask (cache_out r) = - 1 \<and>
      offset_mask (cache_out r) AND index_mask (cache_out r) = 0 \<and>
      offset_mask (cache_out r) AND tag_mask (cache_out r) = 0 \<and>
      index_mask (cache_out r) AND tag_mask (cache_out r) = 0)"
proof -
  have h1: "l1d_linesize l1d_host = 2 ^ 6" by (simp add: l1d_host_def)
  have h2: "l1d_linesize l1d_host * l1d_assoc l1d_host \<noteq> 0" by (simp add: l1d_host_def)
  have h3: "l1d_size l1d_host div (l1d_linesize l1d_host * l1d_assoc l1d_host) = 2 ^ 6"
    by (simp add: l1d_host_def)
  have h4: "(6 :: nat) < 64" by simp
  from masks_partition [OF h1 h4 h2 h3 h4] obtain r where r: "cache_init l1d_host = Some r"
    "offset_mask (cache_out r) OR index_mask (cache_out r) OR tag_mask (cache_out r) = - 1"
    "offset_mask (cache_out r) AND index_mask (cache_out r) = 0"
    "offset_mask (cache_out r) AND tag_mask (cache_out r) = 0"
    "index_mask (cache_out r) AND tag_mask (cache_out r) = 0"
    by blast
  have g: "offset_mask (cache_out r) = 0x3F" "index_mask (cache_out r) = 0xFC0"
    "tag_mask (cache_out r) = 0xFFFFFFFFFFFFF000"
    using r(1) unfolding l1d_host_init by (auto simp: l1d_cache_def)
  show ?thesis using h1 h2 h3 h4 r g by - (intro conjI exI [of _ r]; assumption)
qed

section \<open>The loops of the set operations\<close>

lemma probe_addr_Suc:
  "probe_addr c setno (Suc k) = probe_addr c setno k + push_bit (nat (index_shift c)) (nsets c)"
  by (simp add: probe_addr_def algebra_simps)

lemma probe_addr_0: "probe_addr c setno 0 = buffer c + push_bit (nat (index_shift c)) setno"
  by (simp add: probe_addr_def)

lemma shl_in_range: "0 \<le> s \<Longrightarrow> s < 64 \<Longrightarrow> shl x s = Some (push_bit (nat s) x)"
  by (simp add: shl_def)

lemma way_index:
  fixes a :: u64
  assumes "j < unat a"
  shows "unat (of_nat j :: u64) = j" and "(of_nat j :: u64) < a"
proof -
  have "unat a < 2 ^ 64" using unsigned_less [of a] by simp
  with assms have "j < 2 ^ 64" by simp
  then show u: "unat (of_nat j :: u64) = j" by (simp add: unat_of_nat)
  show "(of_nat j :: u64) < a" using assms u by (simp add: word_less_nat_alt)
qed

lemma flush_ways_run:
  assumes "0 \<le> index_shift c" and "index_shift c < 64"
  shows "j \<le> unat (assoc c) \<Longrightarrow>
     flush_ways c (of_nat j) (probe_addr c setno j) tr =
       Some (tr @ map (\<lambda>k. Cache_flush (probe_addr c setno k)) [j..<unat (assoc c)])"
proof (induction "unat (assoc c) - j" arbitrary: j tr)
  case 0
  then have "j = unat (assoc c)" by simp
  then show ?case by (subst flush_ways.simps) simp
next
  case (Suc d)
  then have lt: "j < unat (assoc c)" by simp
  have k: "(of_nat j :: u64) < assoc c" using lt by (rule way_index)
  have d: "d = unat (assoc c) - Suc j" using Suc.hyps(2) by simp
  have "flush_ways c (of_nat j) (probe_addr c setno j) tr =
      flush_ways c (of_nat j + 1) (probe_addr c setno (Suc j)) (tr @ [Cache_flush (probe_addr c setno j)])"
    using k by (subst flush_ways.simps) (simp add: shl_in_range [OF assms] probe_addr_Suc)
  also have "(of_nat j + 1 :: u64) = of_nat (Suc j)" by simp
  also have "flush_ways c (of_nat (Suc j)) (probe_addr c setno (Suc j)) (tr @ [Cache_flush (probe_addr c setno j)]) =
      Some ((tr @ [Cache_flush (probe_addr c setno j)]) @
      map (\<lambda>k. Cache_flush (probe_addr c setno k)) [Suc j..<unat (assoc c)])"
    using Suc.hyps(1) [OF d] lt by simp
  finally show ?case using lt by (simp add: upt_conv_Cons)
qed

lemma fill_ways_run:
  assumes "0 \<le> index_shift c" and "index_shift c < 64"
  shows "j \<le> unat (assoc c) \<Longrightarrow>
     fill_ways c (of_nat j) (probe_addr c setno j) tr =
       Some (tr @ map (\<lambda>k. Cache_fill (probe_addr c setno k)) [j..<unat (assoc c)])"
proof (induction "unat (assoc c) - j" arbitrary: j tr)
  case 0
  then have "j = unat (assoc c)" by simp
  then show ?case by (subst fill_ways.simps) simp
next
  case (Suc d)
  then have lt: "j < unat (assoc c)" by simp
  have k: "(of_nat j :: u64) < assoc c" using lt by (rule way_index)
  have d: "d = unat (assoc c) - Suc j" using Suc.hyps(2) by simp
  have "fill_ways c (of_nat j) (probe_addr c setno j) tr =
      fill_ways c (of_nat j + 1) (probe_addr c setno (Suc j)) (tr @ [Cache_fill (probe_addr c setno j)])"
    using k by (subst fill_ways.simps) (simp add: shl_in_range [OF assms] probe_addr_Suc)
  also have "(of_nat j + 1 :: u64) = of_nat (Suc j)" by simp
  also have "fill_ways c (of_nat (Suc j)) (probe_addr c setno (Suc j)) (tr @ [Cache_fill (probe_addr c setno j)]) =
      Some ((tr @ [Cache_fill (probe_addr c setno j)]) @
      map (\<lambda>k. Cache_fill (probe_addr c setno k)) [Suc j..<unat (assoc c)])"
    using Suc.hyps(1) [OF d] lt by simp
  finally show ?case using lt by (simp add: upt_conv_Cons)
qed

lemma count_ways_run:
  assumes "0 \<le> index_shift c" and "index_shift c < 64"
  shows "j \<le> unat (assoc c) \<Longrightarrow> cnt + int (unat (assoc c)) - int j \<le> INT_MAX \<Longrightarrow>
     count_ways c rd (of_nat j) (probe_addr c setno j) cnt tr =
       Some (cnt + int (length (filter (\<lambda>k. rd k \<le> hit_threshold c) [j..<unat (assoc c)])),
             tr @ concat (map (probe_events c setno) [j..<unat (assoc c)]))"
proof (induction "unat (assoc c) - j" arbitrary: j cnt tr)
  case 0
  then have "j = unat (assoc c)" by simp
  then show ?case by (subst count_ways.simps) simp
next
  case (Suc d)
  then have lt: "j < unat (assoc c)" by simp
  have k: "(of_nat j :: u64) < assoc c" and u: "unat (of_nat j :: u64) = j"
    using lt by (rule way_index)+
  have d: "d = unat (assoc c) - Suc j" using Suc.hyps(2) by simp
  have lt': "int j < int (unat (assoc c))" using lt by (simp only: of_nat_less_iff)
  have room: "cnt < INT_MAX" using Suc.prems(2) lt' by linarith
  define cnt' where "cnt' = (if rd j \<le> hit_threshold c then cnt + 1 else cnt)"
  have "cnt' \<le> cnt + 1" by (simp add: cnt'_def)
  then have room': "cnt' + int (unat (assoc c)) - int (Suc j) \<le> INT_MAX"
    using Suc.prems(2) by simp
  have "count_ways c rd (of_nat j) (probe_addr c setno j) cnt tr =
      count_ways c rd (of_nat j + 1) (probe_addr c setno (Suc j)) cnt'
        (tr @ probe_events c setno j)"
    using k room
    by (subst count_ways.simps)
      (simp add: shl_in_range [OF assms] probe_addr_Suc u int_incr_def cnt'_def probe_events_def Let_def)
  also have "(of_nat j + 1 :: u64) = of_nat (Suc j)" by simp
  also have "count_ways c rd (of_nat (Suc j)) (probe_addr c setno (Suc j)) cnt' (tr @ probe_events c setno j) =
      Some (cnt' + int (length (filter (\<lambda>k. rd k \<le> hit_threshold c) [Suc j..<unat (assoc c)])),
      (tr @ probe_events c setno j) @ concat (map (probe_events c setno) [Suc j..<unat (assoc c)]))"
    using Suc.hyps(1) [OF d _ room'] lt by simp
  finally show ?case using lt by (simp add: upt_conv_Cons cnt'_def)
qed

section \<open>Index and tag bits of the probe addresses\<close>

lemma nat_index_bits:
  fixes s m :: nat
  assumes "s < 2 ^ b" and "a + b \<le> 64"
  shows "take_bit b (drop_bit a (take_bit 64 (2 ^ (a + b) * m + s * 2 ^ a))) = s"
proof -
  let ?x = "2 ^ (a + b) * m + s * 2 ^ a :: nat"
  have x: "?x = (2 ^ b * m + s) * 2 ^ a" by (simp add: power_add algebra_simps)
  have "drop_bit a (take_bit 64 ?x) = take_bit (64 - a) (drop_bit a ?x)"
    by (rule drop_bit_take_bit)
  then have "take_bit b (drop_bit a (take_bit 64 ?x)) = take_bit (min b (64 - a)) (drop_bit a ?x)"
    by (simp only: take_bit_take_bit)
  also have "min b (64 - a) = b" using assms(2) by simp
  also have "drop_bit a ?x = 2 ^ b * m + s" unfolding x by (simp add: drop_bit_eq_div)
  also have "take_bit b (2 ^ b * m + s) = s" using assms(1) by (simp add: take_bit_eq_mod)
  finally show ?thesis .
qed

lemma nat_tag_bits:
  fixes s m :: nat
  assumes "s < 2 ^ b"
  shows "drop_bit (a + b) (take_bit 64 (2 ^ (a + b) * m + s * 2 ^ a)) = take_bit (64 - (a + b)) m"
proof -
  let ?x = "2 ^ (a + b) * m + s * 2 ^ a :: nat"
  have small: "s * 2 ^ a < 2 ^ (a + b)" using assms by (simp add: power_add)
  have "drop_bit (a + b) (take_bit 64 ?x) = take_bit (64 - (a + b)) (drop_bit (a + b) ?x)"
    by (rule drop_bit_take_bit)
  also have "drop_bit (a + b) ?x = m" using small by (simp add: drop_bit_eq_div)
  finally show ?thesis .
qed

lemma mod_shift_distinct:
  fixes q k k' N :: nat
  assumes "k < N" and "k' < N" and "k \<noteq> k'"
  shows "(q + k) mod N \<noteq> (q + k') mod N"
proof
  assume eq: "(q + k) mod N = (q + k') mod N"
  show False
  proof (cases "k < k'")
    case True
    have "N dvd (q + k') - (q + k)" using eq by (metis mod_eq_dvd_iff_nat True add_le_cancel_left less_imp_le)
    then have "N dvd k' - k" by simp
    moreover have "0 < k' - k" "k' - k < N" using True assms by simp_all
    ultimately show False by (meson dvd_imp_le not_less)
  next
    case False
    then have lt: "k' < k" using assms(3) by simp
    have "N dvd (q + k) - (q + k')" using eq by (metis mod_eq_dvd_iff_nat lt add_le_cancel_left less_imp_le)
    then have "N dvd k - k'" by simp
    moreover have "0 < k - k'" "k - k' < N" using lt assms by simp_all
    ultimately show False by (meson dvd_imp_le not_less)
  qed
qed

lemma probe_addr_offset:
  assumes ish: "index_shift c = int a" and ns: "nsets c = 2 ^ b"
  shows "probe_addr c setno k = buffer c + of_nat (unat setno * 2 ^ a + k * 2 ^ (a + b))"
  by (simp add: probe_addr_def ish ns push_bit_eq_mult power_add algebra_simps)

lemma unat_add_of_nat: "unat (x + of_nat y :: u64) = (unat x + y) mod 2 ^ 64"
proof -
  have "unat (x + of_nat y) = (unat x + unat (of_nat y :: u64)) mod 2 ^ LENGTH(64)"
    by (rule unat_word_ariths(1))
  also have "unat (of_nat y :: u64) = y mod 2 ^ LENGTH(64)"
    by (rule unat_of_nat)
  finally show ?thesis by (simp add: mod_add_right_eq)
qed

lemma unat_probe_addr:
  assumes ish: "index_shift c = int a" and ns: "nsets c = 2 ^ b"
    and al: "2 ^ (a + b) dvd unat (buffer c)"
  shows "unat (probe_addr c setno k) =
           take_bit 64 (2 ^ (a + b) * (unat (buffer c) div 2 ^ (a + b) + k) + unat setno * 2 ^ a)"
proof -
  let ?off = "unat setno * 2 ^ a + k * 2 ^ (a + b)"
  have B: "unat (buffer c) = 2 ^ (a + b) * (unat (buffer c) div 2 ^ (a + b))"
    using al by simp
  have "unat (probe_addr c setno k) = (unat (buffer c) + ?off) mod 2 ^ 64"
    unfolding probe_addr_offset [OF ish ns] by (rule unat_add_of_nat)
  also have "unat (buffer c) + ?off =
      2 ^ (a + b) * (unat (buffer c) div 2 ^ (a + b) + k) + unat setno * 2 ^ a"
    by (subst B) (simp add: algebra_simps)
  finally show ?thesis by (simp only: take_bit_eq_mod)
qed

lemma probe_addr_index:
  assumes ish: "index_shift c = int a" and ns: "nsets c = 2 ^ b"
    and ab: "a + b < 64"
    and al: "2 ^ (a + b) dvd unat (buffer c)"
    and s: "setno < nsets c"
  shows "drop_bit (nat (index_shift c)) (probe_addr c setno k) AND (nsets c - 1) = setno"
proof -
  have b: "b < 64" using ab by simp
  have s': "unat setno < 2 ^ b"
    using s unfolding ns by (simp add: word_less_nat_alt unat_two_power [OF b])
  have m: "(2 ^ b - 1 :: u64) = mask b" by (simp add: mask_eq_exp_minus_1)
  have "unat (drop_bit a (probe_addr c setno k) AND mask b) =
      take_bit b (drop_bit a (unat (probe_addr c setno k)))"
    by (simp add: unat_drop_bit_eq unsigned_take_bit_eq flip: take_bit_eq_mask)
  also have "\<dots> = unat setno"
    unfolding unat_probe_addr [OF ish ns al]
    using s' ab by (intro nat_index_bits) simp_all
  finally show ?thesis
    unfolding ish ns m by (simp add: word_unat_eq_iff)
qed

lemma probe_addr_tag:
  assumes ish: "index_shift c = int a" and ns: "nsets c = 2 ^ b"
    and tsh: "tag_shift c = int (a + b)"
    and ab: "a + b < 64"
    and al: "2 ^ (a + b) dvd unat (buffer c)"
    and s: "setno < nsets c"
  shows "unat (drop_bit (nat (tag_shift c)) (probe_addr c setno k)) =
           (unat (buffer c) div 2 ^ (a + b) + k) mod 2 ^ (64 - (a + b))"
proof -
  have b: "b < 64" using ab by simp
  have s': "unat setno < 2 ^ b"
    using s unfolding ns by (simp add: word_less_nat_alt unat_two_power [OF b])
  have "unat (drop_bit (a + b) (probe_addr c setno k)) =
      drop_bit (a + b) (unat (probe_addr c setno k))"
    by (rule unat_drop_bit_eq)
  also have "\<dots> = take_bit (64 - (a + b)) (unat (buffer c) div 2 ^ (a + b) + k)"
    unfolding unat_probe_addr [OF ish ns al] using s' by (rule nat_tag_bits)
  finally show ?thesis by (simp only: tsh nat_int take_bit_eq_mod)
qed

lemma probe_addr_distinct:
  assumes ish: "index_shift c = int a" and ns: "nsets c = 2 ^ b"
    and tsh: "tag_shift c = int (a + b)"
    and ab: "a + b < 64"
    and al: "2 ^ (a + b) dvd unat (buffer c)"
    and s: "setno < nsets c"
    and n: "n * 2 ^ (a + b) < 2 ^ 64"
    and k: "k < n" "k' < n" "k \<noteq> k'"
  shows "drop_bit (nat (tag_shift c)) (probe_addr c setno k) \<noteq>
         drop_bit (nat (tag_shift c)) (probe_addr c setno k')"
    and "probe_addr c setno k \<noteq> probe_addr c setno k'"
proof -
  have "(2::nat) ^ 64 = 2 ^ (64 - (a + b)) * 2 ^ (a + b)"
    using ab by (simp flip: power_add)
  with n have "n * 2 ^ (a + b) < 2 ^ (64 - (a + b)) * (2::nat) ^ (a + b)" by simp
  then have nN: "n < 2 ^ (64 - (a + b))" by simp
  have "(unat (buffer c) div 2 ^ (a + b) + k) mod 2 ^ (64 - (a + b)) \<noteq>
        (unat (buffer c) div 2 ^ (a + b) + k') mod 2 ^ (64 - (a + b))"
    using k nN by (intro mod_shift_distinct) simp_all
  then have "unat (drop_bit (nat (tag_shift c)) (probe_addr c setno k)) \<noteq>
             unat (drop_bit (nat (tag_shift c)) (probe_addr c setno k'))"
    unfolding probe_addr_tag [OF ish ns tsh ab al s] .
  then show t: "drop_bit (nat (tag_shift c)) (probe_addr c setno k) \<noteq>
         drop_bit (nat (tag_shift c)) (probe_addr c setno k')"
    by auto
  then show "probe_addr c setno k \<noteq> probe_addr c setno k'" by auto
qed

lemma probe_addr_inside:
  fixes setno :: u64 and k n a b :: nat
  assumes s: "unat setno < 2 ^ b" and k: "k < n"
  shows "unat setno * 2 ^ a + k * 2 ^ (a + b) + 2 ^ a \<le> n * 2 ^ (a + b)"
proof -
  have "Suc (unat setno) \<le> 2 ^ b" using s by simp
  then have "Suc (unat setno) * 2 ^ a \<le> 2 ^ b * 2 ^ a" by (rule mult_le_mono1)
  then have 1: "unat setno * 2 ^ a + 2 ^ a \<le> 2 ^ (a + b)" by (simp add: power_add mult.commute)
  have "Suc k \<le> n" using k by simp
  then have "Suc k * 2 ^ (a + b) \<le> n * 2 ^ (a + b)" by (rule mult_le_mono1)
  then have 2: "k * 2 ^ (a + b) + 2 ^ (a + b) \<le> n * 2 ^ (a + b)" by simp
  from 1 2 show ?thesis by linarith
qed

lemma cache_flush_set_run:
  assumes "setno < nsets c" and "0 \<le> index_shift c" and "index_shift c < 64"
  shows "cache_flush_set c setno =
           Some (0, map (\<lambda>k. Cache_flush (probe_addr c setno k)) [0..<unat (assoc c)])"
  using flush_ways_run [OF assms(2,3), of 0 setno "[]"] assms(1)
  by (simp add: cache_flush_set_def shl_in_range [OF assms(2,3)] probe_addr_0 not_le [symmetric])

lemma cache_fill_set_run:
  assumes "setno < nsets c" and "0 \<le> index_shift c" and "index_shift c < 64"
  shows "cache_fill_set c setno =
           Some (0, map (\<lambda>k. Cache_fill (probe_addr c setno k)) [0..<unat (assoc c)])"
  using fill_ways_run [OF assms(2,3), of 0 setno "[]"] assms(1)
  by (simp add: cache_fill_set_def shl_in_range [OF assms(2,3)] probe_addr_0 not_le [symmetric])

lemma cache_count_hits_run:
  assumes "setno < nsets c" and "0 \<le> index_shift c" and "index_shift c < 64"
    and "int (unat (assoc c)) \<le> INT_MAX"
  shows "cache_count_hits c rd setno =
           Some (int (length (filter (\<lambda>k. rd k \<le> hit_threshold c) [0..<unat (assoc c)])),
                 concat (map (probe_events c setno) [0..<unat (assoc c)]))"
  using count_ways_run [OF assms(2,3), of 0 0 rd setno "[]"] assms(1,4)
  by (simp add: cache_count_hits_def shl_in_range [OF assms(2,3)] probe_addr_0 not_le [symmetric])

lemma is_pow2_D: "is_pow2 x \<Longrightarrow> \<exists>s < 64. x = 2 ^ s"
  by (auto simp: is_pow2_def)

lemma aligned_alloc_D:
  assumes "aligned_alloc blk al sz \<noteq> 0"
  shows "\<exists>s < 64. al = 2 ^ s \<and> 2 ^ s dvd unat (aligned_alloc blk al sz)"
proof -
  from assms have p: "is_pow2 al" and m: "blk mod al = 0" and e: "aligned_alloc blk al sz = blk"
    by (auto simp: aligned_alloc_def split: if_splits)
  from is_pow2_D [OF p] obtain s where s: "s < 64" "al = 2 ^ s" by blast
  have "unat (blk mod al) = unat blk mod 2 ^ s"
    unfolding s(2) by (simp only: unat_mod unat_two_power [OF s(1)])
  with m have "2 ^ s dvd unat blk" by (simp add: dvd_eq_mod_eq_0)
  with s e show ?thesis by auto
qed

lemma init_geometry_pow2:
  assumes init: "cache_init h = Some r"
    and ls: "line_size (cache_out r) = 2 ^ a" and a: "a < 64"
    and ns: "nsets (cache_out r) = 2 ^ b" and b: "b < 64"
  shows "index_shift (cache_out r) = int a" and "tag_shift (cache_out r) = int (a + b)"
    and "a + b < 64" and "2 ^ (a + b) \<le> unat (size_c (cache_out r))"
proof -
  note g = cache_init_geometry [OF init]
  have h1: "l1d_linesize h = 2 ^ a" using g(3) ls by simp
  have h2: "l1d_size h div (l1d_linesize h * l1d_assoc h) = 2 ^ b" using g(6) ns by simp
  from cache_init_pow2 [OF h1 a g(1) h2 b] init
  show "index_shift (cache_out r) = int a" and "tag_shift (cache_out r) = int (a + b)"
    by auto
  show "a + b < 64"
    using geometry_shift_bound [of a "l1d_assoc h" "l1d_size h" b] a g(1) h2 b
    unfolding h1 by simp
  show "2 ^ (a + b) \<le> unat (size_c (cache_out r))"
    using geometry_fits [of a "l1d_assoc h" "l1d_size h" b] a g(1) h2 b
    unfolding h1 g(2) by simp
qed

lemma init_buffer_aligned:
  assumes init: "cache_init h = Some r" and ok: "ret r = 0"
    and fits: "2 ^ m \<le> unat (size_c (cache_out r))"
  shows "2 ^ m dvd unat (buffer (cache_out r))"
proof -
  note g = cache_init_geometry [OF init]
  have "buffer (cache_out r) \<noteq> 0" using cache_init_calibration(1) [OF init ok] .
  then have "aligned_alloc (alloc_block h) (l1d_size h) (l1d_size h * l1d_assoc h) \<noteq> 0"
    using g(13) by simp
  from aligned_alloc_D [OF this] obtain s where s: "s < 64" "l1d_size h = 2 ^ s"
    "2 ^ s dvd unat (buffer (cache_out r))" using g(13) by auto
  have "(2::nat) ^ m \<le> 2 ^ s" using fits unfolding g(2) s(2) unat_two_power [OF s(1)] .
  then have "m \<le> s" by simp
  then have "(2::nat) ^ m dvd 2 ^ s" by (rule le_imp_power_dvd)
  then show ?thesis using s(3) by (rule dvd_trans)
qed

text \<open>
  Claim C1. Let \<open>cache_init\<close> succeed with a descriptor whose \<open>line_size\<close> and \<open>nsets\<close>
  are powers of two and whose \<open>buffer_size\<close> is the product \<open>size * assoc\<close> (as numbers:
  the product has not wrapped). Then for every set index \<open>setno < nsets\<close> the fill and
  flush loops, and the timed reads of \<open>cache_count_hits\<close>, touch exactly the addresses
  \<open>buffer + (setno << index_shift) + k * (nsets << index_shift)\<close> for the ways
  \<open>k < assoc\<close>; each of them lies inside the buffer with a whole line
  (\<open>offset + line_size \<le> buffer_size\<close>), has index bits
  \<open>(addr >> index_shift) & (nsets - 1)\<close> equal to \<open>setno\<close>, and any two of them differ, also
  in their tag bits \<open>addr >> tag_shift\<close>.
\<close>

theorem probe_addresses:
  assumes init: "cache_init h = Some r" and ok: "ret r = 0"
    and ls: "line_size (cache_out r) = 2 ^ a" and a: "a < 64"
    and ns: "nsets (cache_out r) = 2 ^ b" and b: "b < 64"
    and bs: "unat (buffer_size (cache_out r)) = unat (size_c (cache_out r)) * unat (assoc (cache_out r))"
    and s: "setno < nsets (cache_out r)"
  shows "cache_fill_set (cache_out r) setno =
           Some (0, map (\<lambda>k. Cache_fill (probe_addr (cache_out r) setno k)) [0..<unat (assoc (cache_out r))]) \<and>
         cache_flush_set (cache_out r) setno =
           Some (0, map (\<lambda>k. Cache_flush (probe_addr (cache_out r) setno k)) [0..<unat (assoc (cache_out r))]) \<and>
         (int (unat (assoc (cache_out r))) \<le> INT_MAX \<longrightarrow>
            cache_count_hits (cache_out r) rd setno =
              Some (int (length (filter (\<lambda>k. rd k \<le> hit_threshold (cache_out r))
                                   [0..<unat (assoc (cache_out r))])),
                    concat (map (probe_events (cache_out r) setno) [0..<unat (assoc (cache_out r))]))) \<and>
         (\<forall>k < unat (assoc (cache_out r)).
            probe_addr (cache_out r) setno k =
              buffer (cache_out r) +
                of_nat (unat setno * unat (line_size (cache_out r)) +
                        k * (unat (nsets (cache_out r)) * unat (line_size (cache_out r)))) \<and>
            unat setno * unat (line_size (cache_out r)) +
              k * (unat (nsets (cache_out r)) * unat (line_size (cache_out r))) +
              unat (line_size (cache_out r)) \<le> unat (buffer_size (cache_out r)) \<and>
            drop_bit (nat (index_shift (cache_out r))) (probe_addr (cache_out r) setno k)
              AND (nsets (cache_out r) - 1) = setno \<and>
            (\<forall>k' < unat (assoc (cache_out r)). k \<noteq> k' \<longrightarrow>
               probe_addr (cache_out r) setno k \<noteq> probe_addr (cache_out r) setno k' \<and>
               drop_bit (nat (tag_shift (cache_out r))) (probe_addr (cache_out r) setno k) \<noteq>
               drop_bit (nat (tag_shift (cache_out r))) (probe_addr (cache_out r) setno k')))"
proof -
  define c where "c = cache_out r"
  define n where "n = unat (assoc c)"
  note geo = init_geometry_pow2 [OF init ls a ns b, folded c_def]
  have ish: "index_shift c = int a" and tsh: "tag_shift c = int (a + b)" and ab: "a + b < 64"
    using geo by simp_all
  have ns': "nsets c = 2 ^ b" and ls': "line_size c = 2 ^ a" using ns ls by (simp_all add: c_def)
  have s': "setno < nsets c" using s by (simp add: c_def)
  have al: "2 ^ (a + b) dvd unat (buffer c)"
    using init_buffer_aligned [OF init ok] geo(4) by (simp add: c_def)
  have ula: "unat (line_size c) = 2 ^ a" unfolding ls' using a by (rule unat_two_power)
  have unb: "unat (nsets c) = 2 ^ b" unfolding ns' using b by (rule unat_two_power)
  have su: "unat setno < 2 ^ b" using s' unb by (simp add: word_less_nat_alt)
  have "n * 2 ^ (a + b) \<le> n * unat (size_c c)" using geo(4) by (rule mult_le_mono2)
  also have "\<dots> = unat (buffer_size c)" using bs by (simp add: c_def n_def mult.commute)
  finally have nb: "n * 2 ^ (a + b) \<le> unat (buffer_size c)" .
  moreover have "unat (buffer_size c) < 2 ^ 64" using unsigned_less [of "buffer_size c"] by simp
  ultimately have nlt: "n * 2 ^ (a + b) < 2 ^ 64" by linarith
  have sh: "0 \<le> index_shift c" "index_shift c < 64" using ish a by simp_all
  have fill: "cache_fill_set c setno = Some (0, map (\<lambda>k. Cache_fill (probe_addr c setno k)) [0..<n])"
    unfolding n_def using s' sh by (rule cache_fill_set_run)
  have flush: "cache_flush_set c setno = Some (0, map (\<lambda>k. Cache_flush (probe_addr c setno k)) [0..<n])"
    unfolding n_def using s' sh by (rule cache_flush_set_run)
  have count: "int n \<le> INT_MAX \<longrightarrow>
      cache_count_hits c rd setno =
        Some (int (length (filter (\<lambda>k. rd k \<le> hit_threshold c) [0..<n])),
              concat (map (probe_events c setno) [0..<n]))"
    unfolding n_def using cache_count_hits_run [OF s' sh] by blast
  have pow: "unat (nsets c) * unat (line_size c) = 2 ^ (a + b)"
    unfolding ula unb by (simp add: power_add)
  have ways: "probe_addr c setno k =
        buffer c + of_nat (unat setno * unat (line_size c) + k * (unat (nsets c) * unat (line_size c))) \<and>
      unat setno * unat (line_size c) + k * (unat (nsets c) * unat (line_size c)) + unat (line_size c)
        \<le> unat (buffer_size c) \<and>
      drop_bit (nat (index_shift c)) (probe_addr c setno k) AND (nsets c - 1) = setno \<and>
      (\<forall>k' < n. k \<noteq> k' \<longrightarrow>
         probe_addr c setno k \<noteq> probe_addr c setno k' \<and>
         drop_bit (nat (tag_shift c)) (probe_addr c setno k) \<noteq>
         drop_bit (nat (tag_shift c)) (probe_addr c setno k'))" if k: "k < n" for k
  proof (intro conjI allI impI)
    show "probe_addr c setno k =
        buffer c + of_nat (unat setno * unat (line_size c) + k * (unat (nsets c) * unat (line_size c)))"
      unfolding pow unfolding ula by (rule probe_addr_offset [OF ish ns'])
    have "unat setno * 2 ^ a + k * 2 ^ (a + b) + 2 ^ a \<le> n * 2 ^ (a + b)"
      using su k by (rule probe_addr_inside)
    then show "unat setno * unat (line_size c) + k * (unat (nsets c) * unat (line_size c)) +
        unat (line_size c) \<le> unat (buffer_size c)"
      unfolding pow unfolding ula using nb by linarith
    show "drop_bit (nat (index_shift c)) (probe_addr c setno k) AND (nsets c - 1) = setno"
      using ish ns' ab al s' by (rule probe_addr_index)
  next
    fix k' assume k': "k' < n" "k \<noteq> k'"
    show "probe_addr c setno k \<noteq> probe_addr c setno k'"
      using ish ns' tsh ab al s' nlt k k' by (rule probe_addr_distinct(2))
    show "drop_bit (nat (tag_shift c)) (probe_addr c setno k) \<noteq>
         drop_bit (nat (tag_shift c)) (probe_addr c setno k')"
      using ish ns' tsh ab al s' nlt k k' by (rule probe_addr_distinct(1))
  qed
  show ?thesis
    using fill flush count ways unfolding c_def [symmetric] n_def [symmetric] by blast
qed

theorem probe_addresses_witness:
  "cache_init l1d_host =
     Some \<lparr>ret = 0, cache_out = l1d_cache, memory_out = memset stale_memory 0x100000 0 32768\<rparr> \<and>
   line_size l1d_cache = 2 ^ 6 \<and> nsets l1d_cache = 2 ^ 6 \<and>
   unat (buffer_size l1d_cache) = unat (size_c l1d_cache) * unat (assoc l1d_cache) \<and>
   (5 :: u64) < nsets l1d_cache \<and>
   cache_fill_set l1d_cache 5 =
     Some (0, [Cache_fill 0x100140, Cache_fill 0x101140, Cache_fill 0x102140, Cache_fill 0x103140,
               Cache_fill 0x104140, Cache_fill 0x105140, Cache_fill 0x106140, Cache_fill 0x107140]) \<and>
   cache_flush_set l1d_cache 5 =
     Some (0, [Cache_flush 0x100140, Cache_flush 0x101140, Cache_flush 0x102140, Cache_flush 0x103140,
               Cache_flush 0x104140, Cache_flush 0x105140, Cache_flush 0x106140, Cache_flush 0x107140]) \<and>
   int (unat (assoc l1d_cache)) \<le> INT_MAX \<and>
   cache_count_hits l1d_cache mixed_reads 5 =
     Some (6, [Timed_read 0x100140, Timed_read 0x101140, Timed_read 0x102140, Timed_read 0x103140,
               Timed_read 0x104140, Timed_read 0x105140, Timed_read 0x106140, Timed_read 0x107140]) \<and>
   probe_addr l1d_cache 5 7 = 0x107140 \<and>
   unat (5 :: u64) * unat (line_size l1d_cache) +
     7 * (unat (nsets l1d_cache) * unat (line_size l1d_cache)) + unat (line_size l1d_cache)
     \<le> unat (buffer_size l1d_cache) \<and>
   drop_bit (nat (index_shift l1d_cache)) (probe_addr l1d_cache 5 7) AND (nsets l1d_cache - 1) = 5 \<and>
   probe_addr l1d_cache 5 7 \<noteq> probe_addr l1d_cache 5 3 \<and>
   drop_bit (nat (tag_shift l1d_cache)) (probe_addr l1d_cache 5 7) \<noteq>
   drop_bit (nat (tag_shift l1d_cache)) (probe_addr l1d_cache 5 3)"
proof -
  let ?r = "\<lparr>ret = 0, cache_out = l1d_cache, memory_out = memset stale_memory 0x100000 0 32768\<rparr>"
  have h2: "ret ?r = 0" by simp
  have h3: "line_size (cache_out ?r) = 2 ^ 6" by (simp add: l1d_cache_def)
  have h4: "(6 :: nat) < 64" by simp
  have h5: "nsets (cache_out ?r) = 2 ^ 6" by (simp add: l1d_cache_def)
  have h6: "unat (buffer_size (cache_out ?r)) = unat (size_c (cache_out ?r)) * unat (assoc (cache_out ?r))"
    by (simp add: l1d_cache_def)
  have h7: "(5 :: u64) < nsets (cache_out ?r)" by (simp add: l1d_cache_def)
  note t = probe_addresses [OF l1d_host_init h2 h3 h4 h5 h4 h6 h7, of mixed_reads,
      simplified init_result.simps]
  have fits: "int (unat (assoc l1d_cache)) \<le> INT_MAX" by (simp add: l1d_cache_def INT_MAX_def)
  have thr: "hit_threshold l1d_cache = 120" by (simp add: l1d_cache_def)
  have n: "unat (assoc l1d_cache) = 8" by (simp add: l1d_cache_def)
  have p: "probe_addr l1d_cache 5 k = 0x100140 + of_nat k * 0x1000" for k
    by (simp add: probe_addr_def l1d_cache_def)
  from t have fill: "cache_fill_set l1d_cache 5 =
      Some (0, map (\<lambda>k. Cache_fill (probe_addr l1d_cache 5 k)) [0..<unat (assoc l1d_cache)])"
    and flush: "cache_flush_set l1d_cache 5 =
      Some (0, map (\<lambda>k. Cache_flush (probe_addr l1d_cache 5 k)) [0..<unat (assoc l1d_cache)])"
    and count: "int (unat (assoc l1d_cache)) \<le> INT_MAX \<longrightarrow>
      cache_count_hits l1d_cache mixed_reads 5 =
        Some (int (length (filter (\<lambda>k. mixed_reads k \<le> hit_threshold l1d_cache)
                             [0..<unat (assoc l1d_cache)])),
              concat (map (probe_events l1d_cache 5) [0..<unat (assoc l1d_cache)]))"
    and ways: "\<forall>k < unat (assoc l1d_cache).
       probe_addr l1d_cache 5 k =
         buffer l1d_cache + of_nat (unat (5 :: u64) * unat (line_size l1d_cache) +
            k * (unat (nsets l1d_cache) * unat (line_size l1d_cache))) \<and>
       unat (5 :: u64) * unat (line_size l1d_cache) +
         k * (unat (nsets l1d_cache) * unat (line_size l1d_cache)) + unat (line_size l1d_cache)
         \<le> unat (buffer_size l1d_cache) \<and>
       drop_bit (nat (index_shift l1d_cache)) (probe_addr l1d_cache 5 k) AND (nsets l1d_cache - 1) = 5 \<and>
       (\<forall>k' < unat (assoc l1d_cache). k \<noteq> k' \<longrightarrow>
          probe_addr l1d_cache 5 k \<noteq> probe_addr l1d_cache 5 k' \<and>
          drop_bit (nat (tag_shift l1d_cache)) (probe_addr l1d_cache 5 k) \<noteq>
          drop_bit (nat (tag_shift l1d_cache)) (probe_addr l1d_cache 5 k'))"
    by blast+
  have k7: "7 < unat (assoc l1d_cache)" and k3: "3 < unat (assoc l1d_cache)"
    and ne: "(7 :: nat) \<noteq> 3"
    using n by simp_all
  note w = ways [rule_format, OF k7]
  note w7 = w [THEN conjunct2, THEN conjunct1]
  note i7 = w [THEN conjunct2, THEN conjunct2, THEN conjunct1]
  note d = w [THEN conjunct2, THEN conjunct2, THEN conjunct2, rule_format, OF k3 ne]
  note d73 = d [THEN conjunct1] d [THEN conjunct2]
  have fill': "cache_fill_set l1d_cache 5 =
     Some (0, [Cache_fill 0x100140, Cache_fill 0x101140, Cache_fill 0x102140, Cache_fill 0x103140,
               Cache_fill 0x104140, Cache_fill 0x105140, Cache_fill 0x106140, Cache_fill 0x107140])"
    unfolding fill n upt_8 by (simp add: p)
  have flush': "cache_flush_set l1d_cache 5 =
     Some (0, [Cache_flush 0x100140, Cache_flush 0x101140, Cache_flush 0x102140, Cache_flush 0x103140,
               Cache_flush 0x104140, Cache_flush 0x105140, Cache_flush 0x106140, Cache_flush 0x107140])"
    unfolding flush n upt_8 by (simp add: p)
  have count': "cache_count_hits l1d_cache mixed_reads 5 =
     Some (6, [Timed_read 0x100140, Timed_read 0x101140, Timed_read 0x102140, Timed_read 0x103140,
               Timed_read 0x104140, Timed_read 0x105140, Timed_read 0x106140, Timed_read 0x107140])"
    unfolding count [rule_format, OF fits] n upt_8 thr
    by (simp add: l1d_probe_events mixed_reads_def)
  have p7: "probe_addr l1d_cache 5 7 = 0x107140" by (simp add: p)
  show ?thesis
    using l1d_host_init h3 h5 h6 h7 fill' flush' fits count' p7 w7 i7 d73
    by (simp only: init_result.simps simp_thms)
qed

section \<open>Set index validation\<close>

text \<open>
  Claim C4. For every \<open>setno \<ge> nsets\<close> each of \<open>cache_fill_set\<close>, \<open>cache_flush_set\<close> and
  \<open>cache_count_hits\<close> returns \<open>-1\<close> and touches nothing (no fill, flush or timed read).
  For every \<open>setno < nsets\<close> (with a shift count a descriptor can hold, \<open>0..63\<close>) each
  runs over all ways: fill and flush return 0, and \<open>cache_count_hits\<close> (for an
  associativity that fits an \<open>int\<close>) returns the number of hits, which is not negative
  and so differs from the failure value.
\<close>

theorem set_index_validation:
  "(nsets c \<le> setno \<longrightarrow>
      cache_fill_set c setno = Some (- 1, []) \<and>
      cache_flush_set c setno = Some (- 1, []) \<and>
      cache_count_hits c rd setno = Some (- 1, [])) \<and>
   (setno < nsets c \<and> 0 \<le> index_shift c \<and> index_shift c < 64 \<longrightarrow>
      cache_fill_set c setno =
        Some (0, map (\<lambda>k. Cache_fill (probe_addr c setno k)) [0..<unat (assoc c)]) \<and>
      cache_flush_set c setno =
        Some (0, map (\<lambda>k. Cache_flush (probe_addr c setno k)) [0..<unat (assoc c)]) \<and>
      (int (unat (assoc c)) \<le> INT_MAX \<longrightarrow>
         cache_count_hits c rd setno =
           Some (int (length (filter (\<lambda>k. rd k \<le> hit_threshold c) [0..<unat (assoc c)])),
                 concat (map (probe_events c setno) [0..<unat (assoc c)]))))"
proof (intro conjI impI)
  assume "nsets c \<le> setno"
  then show "cache_fill_set c setno = Some (- 1, [])"
    and "cache_flush_set c setno = Some (- 1, [])"
    and "cache_count_hits c rd setno = Some (- 1, [])"
    by (simp_all add: cache_fill_set_def cache_flush_set_def cache_count_hits_def)
next
  assume v: "setno < nsets c \<and> 0 \<le> index_shift c \<and> index_shift c < 64"
  then show "cache_fill_set c setno =
      Some (0, map (\<lambda>k. Cache_fill (probe_addr c setno k)) [0..<unat (assoc c)])"
    by (simp add: cache_fill_set_run)
  from v show "cache_flush_set c setno =
      Some (0, map (\<lambda>k. Cache_flush (probe_addr c setno k)) [0..<unat (assoc c)])"
    by (simp add: cache_flush_set_run)
  assume "int (unat (assoc c)) \<le> INT_MAX"
  with v show "cache_count_hits c rd setno =
      Some (int (length (filter (\<lambda>k. rd k \<le> hit_threshold c) [0..<unat (assoc c)])),
            concat (map (probe_events c setno) [0..<unat (assoc c)]))"
    by (simp add: cache_count_hits_run)
qed

theorem set_index_validation_witness:
  "nsets l1d_cache \<le> 64 \<and>
   cache_fill_set l1d_cache 64 = Some (- 1, []) \<and>
   cache_flush_set l1d_cache 64 = Some (- 1, []) \<and>
   cache_count_hits l1d_cache mixed_reads 64 = Some (- 1, []) \<and>
   5 < nsets l1d_cache \<and> 0 \<le> index_shift l1d_cache \<and> index_shift l1d_cache < 64 \<and>
   int (unat (assoc l1d_cache)) \<le> INT_MAX \<and>
   cache_fill_set l1d_cache 5 =
     Some (0, [Cache_fill 0x100140, Cache_fill 0x101140, Cache_fill 0x102140, Cache_fill 0x103140,
               Cache_fill 0x104140, Cache_fill 0x105140, Cache_fill 0x106140, Cache_fill 0x107140]) \<and>
   cache_flush_set l1d_cache 5 =
     Some (0, [Cache_flush 0x100140, Cache_flush 0x101140, Cache_flush 0x102140, Cache_flush 0x103140,
               Cache_flush 0x104140, Cache_flush 0x105140, Cache_flush 0x106140, Cache_flush 0x107140]) \<and>
   cache_count_hits l1d_cache mixed_reads 5 =
     Some (6, [Timed_read 0x100140, Timed_read 0x101140, Timed_read 0x102140, Timed_read 0x103140,
               Timed_read 0x104140, Timed_read 0x105140, Timed_read 0x106140, Timed_read 0x107140])"
proof -
  have out: "nsets l1d_cache \<le> 64" by (simp add: l1d_cache_def)
  have inr: "5 < nsets l1d_cache \<and> 0 \<le> index_shift l1d_cache \<and> index_shift l1d_cache < 64"
    by (simp add: l1d_cache_def)
  have fits: "int (unat (assoc l1d_cache)) \<le> INT_MAX" by (simp add: l1d_cache_def INT_MAX_def)
  have n: "unat (assoc l1d_cache) = 8" by (simp add: l1d_cache_def)
  have thr: "hit_threshold l1d_cache = 120" by (simp add: l1d_cache_def)
  note bad = set_index_validation [of l1d_cache 64 mixed_reads, THEN conjunct1, rule_format, OF out]
  note good = set_index_validation [of l1d_cache 5 mixed_reads, THEN conjunct2, rule_format, OF inr]
  note fill = good [THEN conjunct1]
  note flush = good [THEN conjunct2, THEN conjunct1]
  note count = good [THEN conjunct2, THEN conjunct2, rule_format, OF fits]
  have fill': "cache_fill_set l1d_cache 5 =
     Some (0, [Cache_fill 0x100140, Cache_fill 0x101140, Cache_fill 0x102140, Cache_fill 0x103140,
               Cache_fill 0x104140, Cache_fill 0x105140, Cache_fill 0x106140, Cache_fill 0x107140])"
    unfolding fill n upt_8 by (simp add: l1d_probe_addr)
  have flush': "cache_flush_set l1d_cache 5 =
     Some (0, [Cache_flush 0x100140, Cache_flush 0x101140, Cache_flush 0x102140, Cache_flush 0x103140,
               Cache_flush 0x104140, Cache_flush 0x105140, Cache_flush 0x106140, Cache_flush 0x107140])"
    unfolding flush n upt_8 by (simp add: l1d_probe_addr)
  have count': "cache_count_hits l1d_cache mixed_reads 5 =
     Some (6, [Timed_read 0x100140, Timed_read 0x101140, Timed_read 0x102140, Timed_read 0x103140,
               Timed_read 0x104140, Timed_read 0x105140, Timed_read 0x106140, Timed_read 0x107140])"
    unfolding count n upt_8 thr by (simp add: l1d_probe_events mixed_reads_def)
  show ?thesis
    using out bad inr fits fill' flush' count' by (simp only: simp_thms)
qed

section \<open>A pointer that escapes the buffer\<close>

text \<open>
  Claim C3, as the code has it. \<open>cache_count_hits\<close> has no assertion and never aborts:
  on a valid set index (shift count in \<open>0..63\<close>, associativity within \<open>int\<close>) it
  returns the count of hits. After the timed read of way \<open>k\<close> it advances the pointer,
  and when the advanced pointer is not below \<open>buffer + buffer_size\<close> it prints the line
  \<open>sadface.\<close> and goes on with the next way.
\<close>

theorem count_hits_escape_prints:
  assumes "setno < nsets c" and "0 \<le> index_shift c" and "index_shift c < 64"
    and "int (unat (assoc c)) \<le> INT_MAX"
  shows "cache_count_hits c rd setno =
           Some (int (length (filter (\<lambda>k. rd k \<le> hit_threshold c) [0..<unat (assoc c)])),
                 concat (map (probe_events c setno) [0..<unat (assoc c)])) \<and>
         (\<forall>k < unat (assoc c).
            probe_events c setno k =
              (if probe_addr c setno (Suc k) < buffer c + buffer_size c
               then [Timed_read (probe_addr c setno k)]
               else [Timed_read (probe_addr c setno k), Printf sadface]))"
  using cache_count_hits_run [OF assms] by (simp add: probe_events_def)

lemma upt_1: "[0..<1] = [0]"
  by (simp add: upt_rec)

theorem count_hits_escape_prints_witness:
  "(3 :: u64) < nsets dm_cache \<and> 0 \<le> index_shift dm_cache \<and> index_shift dm_cache < 64 \<and>
   int (unat (assoc dm_cache)) \<le> INT_MAX \<and>
   \<not> probe_addr dm_cache 3 1 < buffer dm_cache + buffer_size dm_cache \<and>
   cache_count_hits dm_cache fast_reads 3 = Some (1, [Timed_read 0x1000C0, Printf sadface])"
proof -
  have h1: "(3 :: u64) < nsets dm_cache" and h2: "0 \<le> index_shift dm_cache"
    and h3: "index_shift dm_cache < 64" and h4: "int (unat (assoc dm_cache)) \<le> INT_MAX"
    by (simp_all add: dm_cache_def INT_MAX_def)
  have n: "unat (assoc dm_cache) = 1" by (simp add: dm_cache_def)
  have esc: "\<not> probe_addr dm_cache 3 1 < buffer dm_cache + buffer_size dm_cache"
    by (simp add: probe_addr_def dm_cache_def)
  have p: "probe_addr dm_cache 3 0 = 0x1000C0" by (simp add: probe_addr_def dm_cache_def)
  have thr: "hit_threshold dm_cache = 120" by (simp add: dm_cache_def)
  note t = count_hits_escape_prints [OF h1 h2 h3 h4, of fast_reads]
  have "cache_count_hits dm_cache fast_reads 3 = Some (1, [Timed_read 0x1000C0, Printf sadface])"
    unfolding t [THEN conjunct1] n upt_1 thr using esc
    by (simp add: probe_events_def p fast_reads_def)
  with h1 h2 h3 h4 esc show ?thesis by (simp only: simp_thms)
qed

text \<open>
  The claim as stated fails on a direct-mapped cache (4 KiB, 64-byte lines, one way):
  \<open>cache_init\<close> builds the descriptor, the pointer advanced past the only way is
  \<open>buffer + buffer_size\<close>, not below it, and \<open>cache_count_hits\<close> prints and returns the
  count 1.
\<close>

theorem count_hits_escape_returns:
  "cache_init dm_host =
     Some \<lparr>ret = 0, cache_out = dm_cache, memory_out = memset stale_memory 0x100000 0 4096\<rparr> \<and>
   \<not> probe_addr dm_cache 0 1 < buffer dm_cache + buffer_size dm_cache \<and>
   cache_count_hits dm_cache fast_reads 0 = Some (1, [Timed_read 0x100000, Printf sadface])"
proof -
  have h: "(0 :: u64) < nsets dm_cache" "0 \<le> index_shift dm_cache"
    "index_shift dm_cache < 64" "int (unat (assoc dm_cache)) \<le> INT_MAX"
    by (simp_all add: dm_cache_def INT_MAX_def)
  have n: "unat (assoc dm_cache) = 1" by (simp add: dm_cache_def)
  have esc: "\<not> probe_addr dm_cache 0 1 < buffer dm_cache + buffer_size dm_cache"
    by (simp add: probe_addr_def dm_cache_def)
  have p: "probe_addr dm_cache 0 0 = 0x100000" by (simp add: probe_addr_def dm_cache_def)
  have thr: "hit_threshold dm_cache = 120" by (simp add: dm_cache_def)
  have "cache_count_hits dm_cache fast_reads 0 = Some (1, [Timed_read 0x100000, Printf sadface])"
    unfolding cache_count_hits_run [OF h] n upt_1 thr using esc
    by (simp add: probe_events_def p fast_reads_def)
  with dm_host_init esc show ?thesis by (simp only: simp_thms)
qed

section \<open>Calibration\<close>

lemma init_index_shift:
  assumes "cache_init h = Some r"
  shows "0 \<le> index_shift (cache_out r)" and "index_shift (cache_out r) < 64"
proof -
  note g = cache_init_geometry [OF assms]
  from g(1) have "l1d_linesize h \<noteq> 0" by auto
  from dlog2_nonzero [OF this] obtain j where j: "j < 64" "dlog2 (l1d_linesize h) = of_nat j"
    by blast
  have "index_shift (cache_out r) = int j"
    unfolding g(8) j(2) using j(1) by (simp add: sint_of_nat_small)
  with j(1) show "0 \<le> index_shift (cache_out r)" and "index_shift (cache_out r) < 64"
    by simp_all
qed

lemma midpoint_between:
  fixes a b t :: u64
  assumes t: "unat t = (unat a + unat b) div 2" and le: "a \<le> b"
  shows "a \<le> t" and "t \<le> b"
proof -
  have "unat a \<le> unat b" using le by (simp add: word_le_nat_alt)
  then have "unat a \<le> unat t" and "unat t \<le> unat b" unfolding t by simp_all
  then show "a \<le> t" and "t \<le> b" by (simp_all add: word_le_nat_alt)
qed

lemma trials_sum:
  "0 \<le> t \<Longrightarrow> t \<le> 1024 \<Longrightarrow>
     trials rd base t m = m + (\<Sum>i = nat t..<1024. rd (base + i))"
proof (induction rd base t m rule: trials.induct)
  case (1 rd base trial mean)
  show ?case
  proof (cases "trial < 1024")
    case True
    have n: "nat (trial + 1) = Suc (nat trial)" and lt: "nat trial < 1024"
      using "1.prems"(1) True by simp_all
    have "trials rd base trial mean = trials rd base (trial + 1) (mean + rd (base + nat trial))"
      using True by (subst trials.simps) (simp add: NTRIALS_def)
    also have "\<dots> = (mean + rd (base + nat trial)) + (\<Sum>i = nat (trial + 1)..<1024. rd (base + i))"
      using "1.IH" "1.prems"(1) True by (simp add: NTRIALS_def)
    also have "\<dots> = mean + (rd (base + nat trial) + (\<Sum>i = Suc (nat trial)..<1024. rd (base + i)))"
      unfolding n by (simp add: add.assoc)
    also have "rd (base + nat trial) + (\<Sum>i = Suc (nat trial)..<1024. rd (base + i)) =
        (\<Sum>i = nat trial..<1024. rd (base + i))"
      using lt by (simp add: sum.atLeast_Suc_lessThan)
    finally show ?thesis .
  next
    case False
    with "1.prems"(2) have "trial = 1024" by simp
    then show ?thesis by (subst trials.simps) (simp add: NTRIALS_def)
  qed
qed

lemma trials_all:
  "trials rd base 0 0 = (\<Sum>i = 0..<1024. rd (base + i))"
  using trials_sum [of 0 rd base 0] by simp

lemma trials_zero_variance:
  assumes "\<forall>i < 1024. rd (base + i) = d"
  shows "trials rd base 0 0 = 1024 * d"
  using trials_const [OF assms, of 0 0] by simp

text \<open>
  Claim C8. After a successful \<open>cache_init\<close> the two latencies are what the calibration
  measured: \<open>hit_latency\<close> is the sum of the first 1024 timed reads (those after a fill)
  divided by 1024 and \<open>miss_latency\<close> the sum of the next 1024 (those after a flush)
  divided by 1024, each sum taken in 64-bit arithmetic as \<open>mean\<close> is. The threshold is
  the integer average
  \<open>(hit_latency + miss_latency) / 2\<close> of the two measured latencies (the sum cannot
  wrap: each latency is a 64-bit sum divided by 1024); if \<open>hit_latency \<le> miss_latency\<close>
  it lies between them; zero-variance timed reads of 40 cycles in the hit loop and 200
  in the miss loop give the latencies 40 and 200 and the threshold 120; and
  \<open>cache_count_hits\<close> counts exactly the ways whose timed read took at most
  \<open>hit_threshold\<close> cycles.
\<close>

theorem calibration_threshold:
  assumes "cache_init h = Some r" and "ret r = 0"
  shows "hit_latency (cache_out r) = (\<Sum>i = 0..<1024. timed_reads h i) div 1024 \<and>
         miss_latency (cache_out r) = (\<Sum>i = 0..<1024. timed_reads h (1024 + i)) div 1024 \<and>
         hit_threshold (cache_out r) = (hit_latency (cache_out r) + miss_latency (cache_out r)) div 2 \<and>
         unat (hit_threshold (cache_out r)) =
           (unat (hit_latency (cache_out r)) + unat (miss_latency (cache_out r))) div 2 \<and>
         (hit_latency (cache_out r) \<le> miss_latency (cache_out r) \<longrightarrow>
            hit_latency (cache_out r) \<le> hit_threshold (cache_out r) \<and>
            hit_threshold (cache_out r) \<le> miss_latency (cache_out r)) \<and>
         (hit_latency (cache_out r) = 40 \<and> miss_latency (cache_out r) = 200 \<longrightarrow>
            hit_threshold (cache_out r) = 120) \<and>
         ((\<forall>i < 1024. timed_reads h i = 40) \<and> (\<forall>i < 1024. timed_reads h (1024 + i) = 200) \<longrightarrow>
            hit_latency (cache_out r) = 40 \<and> miss_latency (cache_out r) = 200 \<and>
            hit_threshold (cache_out r) = 120) \<and>
         (\<forall>setno rd. setno < nsets (cache_out r) \<and> int (unat (assoc (cache_out r))) \<le> INT_MAX \<longrightarrow>
            (\<exists>tr. cache_count_hits (cache_out r) rd setno =
               Some (int (length (filter (\<lambda>k. rd k \<le> hit_threshold (cache_out r))
                                    [0..<unat (assoc (cache_out r))])), tr)))"
proof -
  define c where "c = cache_out r"
  note cal = cache_init_calibration [OF assms, folded c_def]
  have hb: "unat (hit_latency c) < 2 ^ 54" and mb: "unat (miss_latency c) < 2 ^ 54"
    unfolding cal(2,3) by (rule latency_bound)+
  have hs: "hit_latency c = (\<Sum>i = 0..<1024. timed_reads h i) div 1024"
    unfolding cal(2) trials_all by simp
  have ms: "miss_latency c = (\<Sum>i = 0..<1024. timed_reads h (1024 + i)) div 1024"
    unfolding cal(3) trials_all by simp
  have w: "hit_threshold c = (hit_latency c + miss_latency c) div 2" by (rule cal(4))
  have u: "unat (hit_threshold c) = (unat (hit_latency c) + unat (miss_latency c)) div 2"
    unfolding w using hb mb by (rule threshold_midpoint)
  have btw: "hit_latency c \<le> hit_threshold c \<and> hit_threshold c \<le> miss_latency c"
    if "hit_latency c \<le> miss_latency c"
    using midpoint_between [OF u that] by simp
  have fixed: "hit_threshold c = 120" if "hit_latency c = 40 \<and> miss_latency c = 200"
    unfolding w using that by simp
  have zv: "hit_latency c = 40 \<and> miss_latency c = 200 \<and> hit_threshold c = 120"
    if z: "(\<forall>i < 1024. timed_reads h i = 40) \<and> (\<forall>i < 1024. timed_reads h (1024 + i) = 200)"
  proof -
    from z have "\<forall>i < 1024. timed_reads h (0 + i) = 40" by simp
    from trials_zero_variance [OF this] have hl: "hit_latency c = 40" unfolding cal(2) by simp
    from z have "\<forall>i < 1024. timed_reads h (1024 + i) = 200" by simp
    from trials_zero_variance [OF this] have ml: "miss_latency c = 200" unfolding cal(3) by simp
    from hl ml fixed show ?thesis by simp
  qed
  have cnt: "\<exists>tr. cache_count_hits c rd setno =
      Some (int (length (filter (\<lambda>k. rd k \<le> hit_threshold c) [0..<unat (assoc c)])), tr)"
    if "setno < nsets c \<and> int (unat (assoc c)) \<le> INT_MAX" for setno rd
    using cache_count_hits_run [of setno c rd] init_index_shift [OF assms(1), folded c_def] that
    by simp
  show ?thesis
    using hs ms w u btw fixed zv cnt unfolding c_def by blast
qed

theorem calibration_threshold_witness:
  "cache_init l1d_host =
     Some \<lparr>ret = 0, cache_out = l1d_cache, memory_out = memset stale_memory 0x100000 0 32768\<rparr> \<and>
   timed_reads l1d_host 0 = 40 \<and> timed_reads l1d_host 1023 = 40 \<and>
   timed_reads l1d_host 1024 = 200 \<and> timed_reads l1d_host 2047 = 200 \<and>
   (\<Sum>i = 0..<1024. timed_reads l1d_host i) = 40960 \<and>
   (\<Sum>i = 0..<1024. timed_reads l1d_host (1024 + i)) = 204800 \<and>
   hit_latency l1d_cache = (\<Sum>i = 0..<1024. timed_reads l1d_host i) div 1024 \<and>
   miss_latency l1d_cache = (\<Sum>i = 0..<1024. timed_reads l1d_host (1024 + i)) div 1024 \<and>
   hit_latency l1d_cache = 40 \<and> miss_latency l1d_cache = 200 \<and> hit_threshold l1d_cache = 120 \<and>
   hit_latency l1d_cache \<le> hit_threshold l1d_cache \<and>
   hit_threshold l1d_cache \<le> miss_latency l1d_cache \<and>
   5 < nsets l1d_cache \<and> int (unat (assoc l1d_cache)) \<le> INT_MAX \<and>
   map mixed_reads [0, 1, 2, 3, 4, 5, 6, 7] = [40, 40, 300, 40, 40, 121, 120, 40] \<and>
   (\<exists>tr. cache_count_hits l1d_cache mixed_reads 5 = Some (6, tr))"
proof -
  let ?r = "\<lparr>ret = 0, cache_out = l1d_cache, memory_out = memset stale_memory 0x100000 0 32768\<rparr>"
  have ok: "ret ?r = 0" by simp
  note t = calibration_threshold [OF l1d_host_init ok, simplified init_result.simps]
  have z: "(\<forall>i < 1024. timed_reads l1d_host i = 40) \<and>
      (\<forall>i < 1024. timed_reads l1d_host (1024 + i) = 200)"
    by (simp add: l1d_host_def calib_reads_def)
  note hs = t [THEN conjunct1]
  note ms = t [THEN conjunct2, THEN conjunct1]
  note t = t [THEN conjunct2, THEN conjunct2]
  have "(\<Sum>i = 0..<1024. timed_reads l1d_host i) = (\<Sum>i = 0..<1024 :: nat. 40)"
    by (rule sum.cong) (simp_all add: l1d_host_def calib_reads_def)
  then have s1: "(\<Sum>i = 0..<1024. timed_reads l1d_host i) = 40960" by simp
  have "(\<Sum>i = 0..<1024. timed_reads l1d_host (1024 + i)) = (\<Sum>i = 0..<1024 :: nat. 200)"
    by (rule sum.cong) (simp_all add: l1d_host_def calib_reads_def)
  then have s2: "(\<Sum>i = 0..<1024. timed_reads l1d_host (1024 + i)) = 204800" by simp
  note zv = t [THEN conjunct2, THEN conjunct2, THEN conjunct2, THEN conjunct2, THEN conjunct1,
      rule_format, OF z]
  have le: "hit_latency l1d_cache \<le> miss_latency l1d_cache" using zv by simp
  note btw = t [THEN conjunct2, THEN conjunct2, THEN conjunct1, rule_format, OF le]
  have v: "5 < nsets l1d_cache \<and> int (unat (assoc l1d_cache)) \<le> INT_MAX"
    by (simp add: l1d_cache_def INT_MAX_def)
  note cnt = t [THEN conjunct2, THEN conjunct2, THEN conjunct2, THEN conjunct2, THEN conjunct2,
      rule_format, OF v, of mixed_reads]
  have n: "unat (assoc l1d_cache) = 8" by (simp add: l1d_cache_def)
  have m: "map mixed_reads [0, 1, 2, 3, 4, 5, 6, 7] = [40, 40, 300, 40, 40, 121, 120, 40]"
    by (simp add: mixed_reads_def)
  have six: "int (length (filter (\<lambda>k. mixed_reads k \<le> hit_threshold l1d_cache)
      [0..<unat (assoc l1d_cache)])) = 6"
    unfolding n upt_8 using zv by (simp add: mixed_reads_def)
  have cnt': "\<exists>tr. cache_count_hits l1d_cache mixed_reads 5 = Some (6, tr)"
    using cnt unfolding six .
  have z': "timed_reads l1d_host 0 = 40 \<and> timed_reads l1d_host 1023 = 40 \<and>
      timed_reads l1d_host 1024 = 200 \<and> timed_reads l1d_host 2047 = 200"
    by (simp add: l1d_host_def calib_reads_def)
  show ?thesis
    using l1d_host_init z' s1 s2 hs ms zv btw v m cnt' by (simp only: simp_thms)
qed

section \<open>What cache_init returns\<close>

text \<open>
  Claim C2, as the code has it. \<open>cache_init\<close> never looks at the latencies it has
  measured: it returns \<open>-1\<close> exactly when the allocation gave a null pointer and 0
  otherwise, with the threshold \<open>(hit_latency + miss_latency) / 2\<close> installed; the
  return value is the same whatever the timed reads return.
\<close>

theorem cache_init_return_value:
  assumes "cache_init h = Some r"
  shows "(ret r = 0 \<or> ret r = - 1) \<and>
         (ret r = - 1 \<longleftrightarrow> buffer (cache_out r) = 0) \<and>
         (ret r = 0 \<longrightarrow>
            hit_threshold (cache_out r) =
              (hit_latency (cache_out r) + miss_latency (cache_out r)) div 2) \<and>
         (\<forall>rd. \<exists>r'. cache_init (h\<lparr>timed_reads := rd\<rparr>) = Some r' \<and> ret r' = ret r)"
proof -
  have same: "\<exists>r'. cache_init (h\<lparr>timed_reads := rd\<rparr>) = Some r' \<and> ret r' = ret r" for rd
  proof -
    have "cache_init h \<noteq> None" using assms by simp
    then have "cache_init (h\<lparr>timed_reads := rd\<rparr>) \<noteq> None"
      unfolding cache_init_None_iff by simp
    then obtain r' where r': "cache_init (h\<lparr>timed_reads := rd\<rparr>) = Some r'" by blast
    have "buffer (cache_out r') = buffer (cache_out r)"
      using cache_init_geometry(13) [OF r'] cache_init_geometry(13) [OF assms] by simp
    then have "ret r' = ret r"
      using cache_init_ret [OF r'] cache_init_ret [OF assms] by auto
    with r' show ?thesis by blast
  qed
  show ?thesis
    using cache_init_ret [OF assms] cache_init_calibration(4) [OF assms] same by blast
qed

theorem cache_init_return_value_witness:
  "cache_init noisy_host =
     Some \<lparr>ret = 0, cache_out = noisy_cache, memory_out = memset stale_memory 0x100000 0 32768\<rparr> \<and>
   buffer noisy_cache \<noteq> 0 \<and>
   hit_threshold noisy_cache = (hit_latency noisy_cache + miss_latency noisy_cache) div 2 \<and>
   (\<exists>r'. cache_init (noisy_host\<lparr>timed_reads := calib_reads\<rparr>) = Some r' \<and> ret r' = 0)"
proof -
  note t = cache_init_return_value [OF noisy_host_init, simplified init_result.simps]
  have nz: "buffer noisy_cache \<noteq> 0" by (simp add: noisy_cache_def)
  have ok: "(0 :: int) = 0" by simp
  note thr = t [THEN conjunct2, THEN conjunct2, THEN conjunct1, rule_format, OF ok]
  note same = t [THEN conjunct2, THEN conjunct2, THEN conjunct2, rule_format, of calib_reads]
  show ?thesis
    using noisy_host_init nz thr same by (simp only: simp_thms)
qed

text \<open>
  The claim as stated fails where the timed reads after a fill take 200 cycles and those
  after a flush take 40: \<open>hit_latency = 200 \<ge> miss_latency = 40\<close>, and \<open>cache_init\<close>
  returns 0 with the threshold 120 installed.
\<close>

theorem calibration_failure_accepted:
  "cache_init noisy_host =
     Some \<lparr>ret = 0, cache_out = noisy_cache, memory_out = memset stale_memory 0x100000 0 32768\<rparr> \<and>
   hit_latency noisy_cache = 200 \<and> miss_latency noisy_cache = 40 \<and>
   miss_latency noisy_cache \<le> hit_latency noisy_cache \<and>
   hit_threshold noisy_cache = 120"
  using noisy_host_init by (simp add: noisy_cache_def)

section \<open>The contents of the buffer after cache_init\<close>

lemma cache_init_memory:
  assumes "cache_init h = Some r" and "ret r = 0"
  shows "memory_out r a =
           (if a - buffer (cache_out r) < size_c (cache_out r) then 0 else memory h a)"
  using cache_init_calibration(5) [OF assms] cache_init_geometry(2) [OF assms(1)]
  by (simp add: memset_def)

text \<open>
  Claim C9 does not hold of the code: \<open>cache_init\<close> clears \<open>size\<close> bytes of the buffer, not
  \<open>buffer_size = size * assoc\<close>. On the 32 KiB, 8-way host the buffer has 262144 bytes
  from \<open>0x100000\<close> on; the byte at offset 32767 is cleared and the byte at offset 32768
  still holds what the allocator left there.
\<close>

theorem buffer_cleared_up_to_size_only:
  "cache_init l1d_host =
     Some \<lparr>ret = 0, cache_out = l1d_cache, memory_out = memset stale_memory 0x100000 0 32768\<rparr> \<and>
   buffer l1d_cache = 0x100000 \<and> size_c l1d_cache = 32768 \<and> buffer_size l1d_cache = 262144 \<and>
   memset stale_memory 0x100000 0 32768 (0x100000 + 32767) = 0 \<and>
   memset stale_memory 0x100000 0 32768 (0x100000 + 32768) = 0xAA"
  using l1d_host_init by (simp add: l1d_cache_def memset_def stale_memory_def)

section \<open>Pinning the thread\<close>

text \<open>
  Claim C10, as the code has it. \<open>pin_current_thread\<close> discards the result of
  \<open>pthread_setaffinity_np\<close> and returns 0 for every CPU identifier, on every host.
\<close>

theorem pin_current_thread_returns_zero:
  "fst (pin_current_thread ncpus current cpuno) = 0"
  by (simp add: pin_current_thread_def Let_def split_beta)

text \<open>
  The claim as stated fails on a host with the four CPUs 0 to 3: for the CPU identifier
  64 the affinity call fails with \<open>EINVAL\<close>, the affinity of the thread stays what it
  was, and \<open>pin_current_thread\<close> returns 0.
\<close>

theorem pin_out_of_range_succeeds:
  "\<not> (64 :: int) < int 4 \<and>
   pthread_setaffinity_np 4 {0, 1, 2, 3} CPU_SETSIZE (CPU_SET 64 CPU_ZERO) = (EINVAL, {0, 1, 2, 3}) \<and>
   pin_current_thread 4 {0, 1, 2, 3} 64 = (0, {0, 1, 2, 3})"
  by (simp add: pin_current_thread_def pthread_setaffinity_np_def CPU_SET_def CPU_ZERO_def
      CPU_SETSIZE_def Let_def)

end
